theory Spec2Isabelle
  imports Main "HOL-Library.Sublist" "HOL-Library.Word"
begin

section \<open>Strings\<close>

text \<open>
  A JavaScript string is modelled by the bytes of its UTF-8 encoding, as a \<^typ>\<open>string\<close>.
  \<open>TextEncoder.encode\<close> is then the identity, ASCII characters are single bytes, and every
  byte of a non-ASCII character is at least \<open>0x80\<close>. The string operations of the platform
  that the program calls (\<open>trim\<close>, \<open>split\<close>, \<open>indexOf\<close>, \<open>startsWith\<close>, \<open>toLowerCase\<close>, the
  regular expressions) are written out below on this representation. \<open>s.startsWith(p)\<close> is
  \<^term>\<open>prefix p s\<close>, \<open>s.slice(n)\<close> is \<^term>\<open>drop n s\<close>.
\<close>

abbreviation LF :: char where "LF \<equiv> CHR 0x0A"
abbreviation CR :: char where "CR \<equiv> CHR 0x0D"
abbreviation DQ :: char where "DQ \<equiv> CHR 0x22"
abbreviation BSL :: char where "BSL \<equiv> CHR 0x5C"

subsection \<open>White space\<close>

text \<open>
  The white space of \<open>String.prototype.trim\<close> and of the regular expression class \<open>\s\<close>:
  TAB, LF, VT, FF, CR, SPACE (one byte), U+00A0 (two bytes), and U+1680, U+2000..U+200A,
  U+2028, U+2029, U+202F, U+205F, U+3000, U+FEFF (three bytes each).
\<close>

definition ws1 :: "char \<Rightarrow> bool" where
  "ws1 a = (a \<in> set [CHR 0x09, CHR 0x0A, CHR 0x0B, CHR 0x0C, CHR 0x0D, CHR 0x20])"

definition ws2 :: "char \<Rightarrow> char \<Rightarrow> bool" where
  "ws2 a b = (a = CHR 0xC2 \<and> b = CHR 0xA0)"

definition ws3 :: "char \<Rightarrow> char \<Rightarrow> char \<Rightarrow> bool" where
  "ws3 a b c =
     ((a = CHR 0xE1 \<and> b = CHR 0x9A \<and> c = CHR 0x80) \<or>
      (a = CHR 0xE2 \<and> b = CHR 0x80 \<and>
         ((0x80 \<le> (of_char c :: nat) \<and> (of_char c :: nat) \<le> 0x8A) \<or>
          c = CHR 0xA8 \<or> c = CHR 0xA9 \<or> c = CHR 0xAF)) \<or>
      (a = CHR 0xE2 \<and> b = CHR 0x81 \<and> c = CHR 0x9F) \<or>
      (a = CHR 0xE3 \<and> b = CHR 0x80 \<and> c = CHR 0x80) \<or>
      (a = CHR 0xEF \<and> b = CHR 0xBB \<and> c = CHR 0xBF))"

text \<open>The number of bytes of the white-space character a string starts with (0: none).\<close>

fun ws_len :: "string \<Rightarrow> nat" where
  "ws_len [] = 0"
| "ws_len [a] = (if ws1 a then 1 else 0)"
| "ws_len [a, b] = (if ws1 a then 1 else if ws2 a b then 2 else 0)"
| "ws_len (a # b # c # s) =
     (if ws1 a then 1 else if ws2 a b then 2 else if ws3 a b c then 3 else 0)"

text \<open>The same for the white-space character a string ends with.\<close>

definition ws_len_end :: "string \<Rightarrow> nat" where
  "ws_len_end s =
     (case rev s of
        [] \<Rightarrow> 0
      | [c] \<Rightarrow> (if ws1 c then 1 else 0)
      | [c, b] \<Rightarrow> (if ws1 c then 1 else if ws2 b c then 2 else 0)
      | c # b # a # r \<Rightarrow>
          (if ws1 c then 1 else if ws2 b c then 2 else if ws3 a b c then 3 else 0))"

lemma ws_len_le: "ws_len s \<le> length s"
  by (induction s rule: ws_len.induct) auto

lemma ws_len_end_le: "ws_len_end s \<le> length s"
proof -
  have "ws_len_end s \<le> length (rev s)"
    unfolding ws_len_end_def by (auto split: list.splits)
  then show ?thesis by simp
qed

function trimStart :: "string \<Rightarrow> string" where
  "trimStart s = (if ws_len s = 0 then s else trimStart (drop (ws_len s) s))"
  by pat_completeness auto
termination
proof (relation "measure length")
  show "wf (measure length)" by simp
next
  fix s :: string
  assume "ws_len s \<noteq> 0"
  moreover have "ws_len s \<le> length s" by (rule ws_len_le)
  ultimately show "(drop (ws_len s) s, s) \<in> measure length" by simp
qed

declare trimStart.simps [simp del]

function trimEnd :: "string \<Rightarrow> string" where
  "trimEnd s = (if ws_len_end s = 0 then s else trimEnd (take (length s - ws_len_end s) s))"
  by pat_completeness auto
termination
proof (relation "measure length")
  show "wf (measure length)" by simp
next
  fix s :: string
  assume "ws_len_end s \<noteq> 0"
  moreover have "ws_len_end s \<le> length s" by (rule ws_len_end_le)
  ultimately show "(take (length s - ws_len_end s) s, s) \<in> measure length" by simp
qed

declare trimEnd.simps [simp del]

definition trim :: "string \<Rightarrow> string" where
  "trim s = trimEnd (trimStart s)"

subsection \<open>Letter case\<close>

definition lower_ascii :: "char \<Rightarrow> char" where
  "lower_ascii c =
     (case map_of (zip ''ABCDEFGHIJKLMNOPQRSTUVWXYZ'' ''abcdefghijklmnopqrstuvwxyz'') c of
        Some l \<Rightarrow> l
      | None \<Rightarrow> c)"

text \<open>
  \<open>String.prototype.toLowerCase\<close>. ASCII capitals become small letters. Two characters
  outside ASCII have a lower case that holds an ASCII letter, and are mapped as JavaScript
  maps them: U+212A (the Kelvin sign) to \<open>k\<close>, and U+0130 to \<open>i\<close> followed by U+0307. Every
  other non-ASCII character has a non-ASCII lower case and is left as it is: the program
  only compares the result with ASCII text and tests it for ASCII words.
\<close>

fun toLowerCase :: "string \<Rightarrow> string" where
  "toLowerCase [] = []"
| "toLowerCase [a] = [lower_ascii a]"
| "toLowerCase [a, b] =
     (if a = CHR 0xC4 \<and> b = CHR 0xB0 then [CHR ''i'', CHR 0xCC, CHR 0x87]
      else lower_ascii a # toLowerCase [b])"
| "toLowerCase (a # b # c # s) =
     (if a = CHR 0xC4 \<and> b = CHR 0xB0 then [CHR ''i'', CHR 0xCC, CHR 0x87] @ toLowerCase (c # s)
      else if a = CHR 0xE2 \<and> b = CHR 0x84 \<and> c = CHR 0xAA then CHR ''k'' # toLowerCase s
      else lower_ascii a # toLowerCase (b # c # s))"

subsection \<open>Searching, splitting, joining\<close>

text \<open>\<open>s.indexOf(needle)\<close>: the first position where \<open>needle\<close> occurs, \<open>None\<close> for \<open>-1\<close>.\<close>

fun indexOf :: "'a list \<Rightarrow> 'a list \<Rightarrow> nat option" where
  "indexOf [] needle = (if needle = [] then Some 0 else None)"
| "indexOf (x # xs) needle =
     (if prefix needle (x # xs) then Some 0 else map_option Suc (indexOf xs needle))"

text \<open>\<open>s.includes(needle)\<close>.\<close>

definition includes_str :: "string \<Rightarrow> string \<Rightarrow> bool" where
  "includes_str s needle = (indexOf s needle \<noteq> None)"

lemma indexOf_bound: "indexOf s needle = Some i \<Longrightarrow> i + length needle \<le> length s"
proof (induction s arbitrary: i)
  case Nil
  then show ?case by (simp split: if_splits)
next
  case (Cons x xs)
  show ?case
  proof (cases "prefix needle (x # xs)")
    case True
    with Cons.prems have "i = 0" by simp
    with prefix_length_le[OF True] show ?thesis by simp
  next
    case False
    with Cons.prems obtain j where "indexOf xs needle = Some j" "i = Suc j" by auto
    with Cons.IH show ?thesis by simp
  qed
qed

text \<open>\<open>s.split(sep)\<close> for a one-character separator; the empty string gives \<open>[""]\<close>.\<close>

fun split_on :: "char \<Rightarrow> string \<Rightarrow> string list" where
  "split_on sep [] = [[]]"
| "split_on sep (x # xs) =
     (if x = sep then [] # split_on sep xs
      else (case split_on sep xs of
              [] \<Rightarrow> [[x]]
            | y # ys \<Rightarrow> (x # y) # ys))"

text \<open>\<open>xs.join(sep)\<close>.\<close>

fun join :: "string \<Rightarrow> string list \<Rightarrow> string" where
  "join sep [] = []"
| "join sep [x] = x"
| "join sep (x # y # ys) = x @ sep @ join sep (y # ys)"

lemma trimStart_length: "length (trimStart s) \<le> length s"
proof (induction s rule: trimStart.induct)
  case (1 s)
  show ?case
  proof (cases "ws_len s = 0")
    case True
    then show ?thesis by (simp add: trimStart.simps)
  next
    case False
    with 1 have "length (trimStart (drop (ws_len s) s)) \<le> length (drop (ws_len s) s)" by simp
    with False show ?thesis by (subst trimStart.simps) simp
  qed
qed

text \<open>
  \<open>s.split(/\s+/)\<close>: the pieces between the maximal runs of white space; a string that
  starts (ends) with white space gives an empty first (last) piece. \<open>cur\<close> is the piece
  being read.
\<close>

function split_ws_from :: "string \<Rightarrow> string \<Rightarrow> string list" where
  "split_ws_from cur s =
     (case s of
        [] \<Rightarrow> [cur]
      | x # xs \<Rightarrow>
          if ws_len s \<noteq> 0 then cur # split_ws_from [] (trimStart s)
          else split_ws_from (cur @ [x]) xs)"
  by pat_completeness auto
termination
proof (relation "measure (\<lambda>(cur, s). length s)")
  show "wf (measure (\<lambda>(cur, s). length s))" by simp
next
  fix cur s :: string and x xs
  assume s: "s = x # xs" and w: "ws_len s \<noteq> 0"
  have "length (trimStart (drop (ws_len s) s)) \<le> length (drop (ws_len s) s)"
    by (rule trimStart_length)
  moreover have "trimStart s = trimStart (drop (ws_len s) s)"
    using w by (subst trimStart.simps) simp
  moreover have "ws_len s \<le> length s" by (rule ws_len_le)
  ultimately have "length (trimStart s) < length s" using w by simp
  then show "(([], trimStart s), cur, s) \<in> measure (\<lambda>(cur, s). length s)" by simp
next
  fix cur s :: string and x xs
  assume "s = x # xs"
  then show "((cur @ [x], xs), cur, s) \<in> measure (\<lambda>(cur, s). length s)" by simp
qed

declare split_ws_from.simps [simp del]

definition split_ws :: "string \<Rightarrow> string list" where
  "split_ws s = split_ws_from [] s"

subsection \<open>The regular expressions of the dice command\<close>

definition is_digit :: "char \<Rightarrow> bool" where
  "is_digit c = (48 \<le> (of_char c :: nat) \<and> (of_char c :: nat) \<le> 57)"

text \<open>The class \<open>\w\<close>: ASCII letters, digits and the underscore.\<close>

definition word_char :: "char \<Rightarrow> bool" where
  "word_char c =
     (let n = (of_char c :: nat) in
      (48 \<le> n \<and> n \<le> 57) \<or> (65 \<le> n \<and> n \<le> 90) \<or> (97 \<le> n \<and> n \<le> 122) \<or> n = 95)"

text \<open>
  \<open>/\bw\b/.test(s)\<close> for a word \<open>w\<close> of word characters: \<open>w\<close> occurs in \<open>s\<close> with no word
  character right before it and none right after it. \<open>prev\<close> says whether the character
  before the current position is a word character.
\<close>

fun test_word_from :: "string \<Rightarrow> bool \<Rightarrow> string \<Rightarrow> bool" where
  "test_word_from w prev [] = False"
| "test_word_from w prev (x # xs) =
     ((\<not> prev \<and> prefix w (x # xs) \<and>
         (case drop (length w) (x # xs) of [] \<Rightarrow> True | y # ys \<Rightarrow> \<not> word_char y))
      \<or> test_word_from w (word_char x) xs)"

definition test_word :: "string \<Rightarrow> string \<Rightarrow> bool" where
  "test_word w s = test_word_from w False s"

text \<open>
  \<open>input.replace(/^\/roll/i, "")\<close>: without the \<open>u\<close> flag, \<open>i\<close> lets an ASCII letter match
  its other case only.
\<close>

definition strip_roll :: "string \<Rightarrow> string" where
  "strip_roll s = (if map lower_ascii (take 5 s) = ''/roll'' then drop 5 s else s)"

text \<open>
  \<open>expr.match(/^(\d*)d(\d+)([+-]\d+)?$/i)\<close>: the three groups, the third \<open>None\<close> when it
  took no part in the match. No digit is a \<open>d\<close> or a sign, so the greedy match is the only
  one.
\<close>

definition match_dice :: "string \<Rightarrow> (string \<times> string \<times> string option) option" where
  "match_dice expr =
     (let g1 = takeWhile is_digit expr; r1 = dropWhile is_digit expr in
      case r1 of
        [] \<Rightarrow> None
      | d # r2 \<Rightarrow>
          if d = CHR ''d'' \<or> d = CHR ''D'' then
            (let g2 = takeWhile is_digit r2; r3 = dropWhile is_digit r2 in
             if g2 = [] then None
             else (case r3 of
                     [] \<Rightarrow> Some (g1, g2, None)
                   | sg # r4 \<Rightarrow>
                       if (sg = CHR ''+'' \<or> sg = CHR ''-'') \<and> r4 \<noteq> [] \<and> list_all is_digit r4
                       then Some (g1, g2, Some (sg # r4))
                       else None))
          else None)"

section \<open>Numbers\<close>

text \<open>
  A JavaScript number is an IEEE 754 double. Every number of the dice command is an
  integer-valued double, an infinity or (in principle) NaN; \<open>Fin v\<close> is the double whose
  value is the integer \<open>v\<close>. Plus and minus zero are both \<open>Fin 0\<close>: the program only
  compares its numbers and adds them to numbers that are at least 1.
\<close>

datatype jsnum = Fin int | PosInf | NegInf | NaN

fun bit_length :: "nat \<Rightarrow> nat" where
  "bit_length n = (if n = 0 then 0 else Suc (bit_length (n div 2)))"

declare bit_length.simps [simp del]

text \<open>
  The double nearest to an integer, ties to the even significand (53 bits); an integer
  that rounds to \<open>2^1024\<close> or beyond becomes an infinity.
\<close>

definition round_double :: "int \<Rightarrow> jsnum" where
  "round_double v =
     (let a = nat \<bar>v\<bar> in
      if a < 2 ^ 53 then Fin v
      else
        (let q = 2 ^ (bit_length a - 53);
             m = a div q;
             r = a mod q;
             m' = (if q < 2 * r \<or> (2 * r = q \<and> odd m) then m + 1 else m);
             a' = m' * q
         in if 2 ^ 1024 \<le> a' then (if v < 0 then NegInf else PosInf)
            else Fin (if v < 0 then - int a' else int a')))"

text \<open>The value of a string of decimal digits.\<close>

definition digit_val :: "char \<Rightarrow> nat" where
  "digit_val c = (of_char c :: nat) - 48"

definition dec_value :: "string \<Rightarrow> nat" where
  "dec_value ds = foldl (\<lambda>acc c. 10 * acc + digit_val c) 0 ds"

text \<open>
  \<open>Number(s)\<close> for the strings the regular expression hands over: decimal digits, with or
  without a sign in front.
\<close>

definition Number_of :: "string \<Rightarrow> jsnum" where
  "Number_of s =
     (case s of
        [] \<Rightarrow> Fin 0
      | c # ds \<Rightarrow>
          if c = CHR ''-'' then round_double (- int (dec_value ds))
          else if c = CHR ''+'' then round_double (int (dec_value ds))
          else round_double (int (dec_value (c # ds))))"

text \<open>The sum of two doubles: the exact sum, rounded.\<close>

fun js_add :: "jsnum \<Rightarrow> jsnum \<Rightarrow> jsnum" where
  "js_add (Fin a) (Fin b) = round_double (a + b)"
| "js_add NaN y = NaN"
| "js_add x NaN = NaN"
| "js_add PosInf NegInf = NaN"
| "js_add NegInf PosInf = NaN"
| "js_add PosInf y = PosInf"
| "js_add NegInf y = NegInf"
| "js_add (Fin a) y = y"

text \<open>
  The decimal digits of an integer: what \<open>String(x)\<close> gives for a double \<open>x\<close> whose value is
  an integer of absolute value below \<open>2^53\<close>. Beyond that JavaScript prints the shortest
  digits that read back as the same double, so the model takes the printing of numbers
  as a parameter \<open>str\<close>, and \<open>decimal\<close> is the instance used where a run is evaluated.
\<close>

function digits_of :: "nat \<Rightarrow> string" where
  "digits_of n =
     (if n < 10 then [''0123456789'' ! n]
      else digits_of (n div 10) @ [''0123456789'' ! (n mod 10)])"
  by pat_completeness auto
termination
  by (relation "measure id") auto

declare digits_of.simps [simp del]

definition decimal :: "jsnum \<Rightarrow> string" where
  "decimal x =
     (case x of
        Fin v \<Rightarrow> (if v < 0 then CHR ''-'' # digits_of (nat (- v)) else digits_of (nat v))
      | PosInf \<Rightarrow> ''Infinity''
      | NegInf \<Rightarrow> ''-Infinity''
      | NaN \<Rightarrow> ''NaN'')"

section \<open>JSON\<close>

text \<open>
  \<open>JSON.stringify\<close> and \<open>JSON.parse\<close> are the platform's. They are written out here as far
  as the program uses them. A number keeps the text of its literal: the double it
  denotes is only ever printed.
\<close>

datatype json =
    JNull
  | JBool bool
  | JNum string
  | JStr string
  | JArr "json list"
  | JObj "(string \<times> json) list"

subsection \<open>Writing\<close>

definition hex_digit :: "nat \<Rightarrow> char" where
  "hex_digit n = ''0123456789abcdef'' ! (n mod 16)"

text \<open>
  \<open>QuoteJSONString\<close>, for one character that is no lone surrogate: the two-character
  escapes, \<open>\u00XX\<close> for the other control characters, every other character as it is (the
  bytes of a non-ASCII character included).
\<close>

definition escape_char :: "char \<Rightarrow> string" where
  "escape_char c =
     (if c = CHR 0x08 then [BSL, CHR ''b'']
      else if c = CHR 0x09 then [BSL, CHR ''t'']
      else if c = LF then [BSL, CHR ''n'']
      else if c = CHR 0x0C then [BSL, CHR ''f'']
      else if c = CR then [BSL, CHR ''r'']
      else if c = DQ then [BSL, DQ]
      else if c = BSL then [BSL, BSL]
      else if (of_char c :: nat) < 0x20 then
        [BSL, CHR ''u'', CHR ''0'', CHR ''0'',
         hex_digit ((of_char c :: nat) div 16), hex_digit ((of_char c :: nat) mod 16)]
      else [c])"

text \<open>
  A string of JavaScript may hold a surrogate that is not half of a pair. In the byte
  model it is the three bytes \<open>ED A0..BF 80..BF\<close>, the code unit written in the scheme of
  UTF-8 (a pair is one character of four bytes). \<open>surrogate_unit\<close> is that code unit,
  from \<open>0xD800\<close> to \<open>0xDFFF\<close>.
\<close>

definition surrogate_unit :: "char \<Rightarrow> char \<Rightarrow> char \<Rightarrow> nat option" where
  "surrogate_unit a b c =
     (if a = CHR 0xED \<and> 0xA0 \<le> (of_char b :: nat) \<and> (of_char b :: nat) \<le> 0xBF
         \<and> 0x80 \<le> (of_char c :: nat) \<and> (of_char c :: nat) \<le> 0xBF
      then Some (0xD000 + ((of_char b :: nat) - 0x80) * 64 + ((of_char c :: nat) - 0x80))
      else None)"

definition unicode_escape :: "nat \<Rightarrow> string" where
  "unicode_escape u =
     [BSL, CHR ''u'', hex_digit (u div 4096), hex_digit (u div 256), hex_digit (u div 16),
      hex_digit u]"

text \<open>The characters between the quotes: a lone surrogate is written as \<open>\udXXX\<close>.\<close>

fun quote_body :: "string \<Rightarrow> string" where
  "quote_body (a # b # c # s) =
     (case surrogate_unit a b c of
        Some u \<Rightarrow> unicode_escape u @ quote_body s
      | None \<Rightarrow> escape_char a @ quote_body (b # c # s))"
| "quote_body [a, b] = escape_char a @ quote_body [b]"
| "quote_body [a] = escape_char a"
| "quote_body [] = []"

definition QuoteJSONString :: "string \<Rightarrow> string" where
  "QuoteJSONString s = [DQ] @ quote_body s @ [DQ]"

text \<open>\<open>JSON.stringify({ response: text })\<close>.\<close>

definition stringify_response :: "string \<Rightarrow> string" where
  "stringify_response text = ''{'' @ [DQ] @ ''response'' @ [DQ] @ '':'' @ QuoteJSONString text @ ''}''"

subsection \<open>Reading\<close>

definition hex_val :: "char \<Rightarrow> nat option" where
  "hex_val c =
     (let n = (of_char c :: nat) in
      if 48 \<le> n \<and> n \<le> 57 then Some (n - 48)
      else if 97 \<le> n \<and> n \<le> 102 then Some (n - 87)
      else if 65 \<le> n \<and> n \<le> 70 then Some (n - 55)
      else None)"

definition hex4 :: "char \<Rightarrow> char \<Rightarrow> char \<Rightarrow> char \<Rightarrow> nat option" where
  "hex4 a b c d =
     (case (hex_val a, hex_val b, hex_val c, hex_val d) of
        (Some x, Some y, Some z, Some w) \<Rightarrow> Some (((x * 16 + y) * 16 + z) * 16 + w)
      | _ \<Rightarrow> None)"

text \<open>The UTF-8 bytes of a code point (of a lone surrogate too, in the same scheme).\<close>

definition utf8_encode :: "nat \<Rightarrow> string" where
  "utf8_encode cp =
     (if cp < 0x80 then [char_of cp]
      else if cp < 0x800 then [char_of (0xC0 + cp div 64), char_of (0x80 + cp mod 64)]
      else if cp < 0x10000 then
        [char_of (0xE0 + cp div 4096), char_of (0x80 + (cp div 64) mod 64),
         char_of (0x80 + cp mod 64)]
      else
        [char_of (0xF0 + cp div 262144), char_of (0x80 + (cp div 4096) mod 64),
         char_of (0x80 + (cp div 64) mod 64), char_of (0x80 + cp mod 64)])"

definition is_high_surrogate :: "nat \<Rightarrow> bool" where
  "is_high_surrogate u = (0xD800 \<le> u \<and> u \<le> 0xDBFF)"

definition is_low_surrogate :: "nat \<Rightarrow> bool" where
  "is_low_surrogate u = (0xDC00 \<le> u \<and> u \<le> 0xDFFF)"

definition simple_escape :: "char \<Rightarrow> char option" where
  "simple_escape c =
     (if c = DQ then Some DQ
      else if c = BSL then Some BSL
      else if c = CHR ''/'' then Some (CHR ''/'')
      else if c = CHR ''b'' then Some (CHR 0x08)
      else if c = CHR ''f'' then Some (CHR 0x0C)
      else if c = CHR ''n'' then Some LF
      else if c = CHR ''r'' then Some CR
      else if c = CHR ''t'' then Some (CHR 0x09)
      else None)"

definition cons_text :: "string \<Rightarrow> (string \<times> string) option \<Rightarrow> (string \<times> string) option" where
  "cons_text t r = map_option (\<lambda>(u, rest). (t @ u, rest)) r"

text \<open>
  The body of a JSON string, after its opening quote: the text it denotes and what
  follows the closing quote. A \<open>\uD8xx\<close> escape right before a \<open>\uDCxx\<close> escape is one
  character.
\<close>

fun parse_string :: "string \<Rightarrow> (string \<times> string) option" where
  "parse_string [] = None"
| "parse_string (c # s) =
     (if c = DQ then Some ([], s)
      else if c = BSL then
        (case s of
           [] \<Rightarrow> None
         | e # s1 \<Rightarrow>
             if e = CHR ''u'' then
               (case s1 of
                  a # b # c' # d # s2 \<Rightarrow>
                    (case hex4 a b c' d of
                       None \<Rightarrow> None
                     | Some u \<Rightarrow>
                         (case s2 of
                            b1 # u1 # a2 # b2 # c2 # d2 # s3 \<Rightarrow>
                              (case hex4 a2 b2 c2 d2 of
                                 Some l \<Rightarrow>
                                   if b1 = BSL \<and> u1 = CHR ''u'' \<and> is_high_surrogate u
                                      \<and> is_low_surrogate l
                                   then cons_text
                                          (utf8_encode
                                             (0x10000 + (u - 0xD800) * 1024 + (l - 0xDC00)))
                                          (parse_string s3)
                                   else cons_text (utf8_encode u) (parse_string s2)
                               | None \<Rightarrow> cons_text (utf8_encode u) (parse_string s2))
                          | _ \<Rightarrow> cons_text (utf8_encode u) (parse_string s2)))
                | _ \<Rightarrow> None)
             else
               (case simple_escape e of
                  None \<Rightarrow> None
                | Some x \<Rightarrow> cons_text [x] (parse_string s1)))
      else if (of_char c :: nat) < 0x20 then None
      else cons_text [c] (parse_string s))"

text \<open>JSON white space: space, TAB, LF, CR.\<close>

definition json_ws :: "char \<Rightarrow> bool" where
  "json_ws c = (c = CHR 0x20 \<or> c = CHR 0x09 \<or> c = LF \<or> c = CR)"

definition skip_ws :: "string \<Rightarrow> string" where
  "skip_ws s = dropWhile json_ws s"

text \<open>
  A number literal at the head of the text: \<open>-?(0|[1-9][0-9]*)(\.[0-9]+)?([eE][+-]?[0-9]+)?\<close>,
  with what follows it.
\<close>

definition scan_int :: "string \<Rightarrow> (string \<times> string) option" where
  "scan_int s =
     (case s of
        [] \<Rightarrow> None
      | c # r \<Rightarrow>
          if c = CHR ''0'' then Some ([c], r)
          else if is_digit c then Some (takeWhile is_digit s, dropWhile is_digit s)
          else None)"

definition scan_frac :: "string \<Rightarrow> (string \<times> string) option" where
  "scan_frac s =
     (case s of
        c # r \<Rightarrow>
          if c = CHR ''.'' then
            (if takeWhile is_digit r = [] then None
             else Some (c # takeWhile is_digit r, dropWhile is_digit r))
          else Some ([], s)
      | [] \<Rightarrow> Some ([], s))"

definition scan_exp :: "string \<Rightarrow> (string \<times> string) option" where
  "scan_exp s =
     (case s of
        c # r \<Rightarrow>
          if c = CHR ''e'' \<or> c = CHR ''E'' then
            (let (sg, r1) =
                   (case r of
                      x # r' \<Rightarrow> if x = CHR ''+'' \<or> x = CHR ''-'' then ([x], r') else ([], r)
                    | [] \<Rightarrow> ([], r))
             in if takeWhile is_digit r1 = [] then None
                else Some (c # sg @ takeWhile is_digit r1, dropWhile is_digit r1))
          else Some ([], s)
      | [] \<Rightarrow> Some ([], s))"

definition parse_number :: "string \<Rightarrow> (string \<times> string) option" where
  "parse_number s =
     (let (sg, s0) = (case s of c # r \<Rightarrow> if c = CHR ''-'' then ([c], r) else ([], s) | [] \<Rightarrow> ([], s))
      in case scan_int s0 of
           None \<Rightarrow> None
         | Some (ip, s1) \<Rightarrow>
             (case scan_frac s1 of
                None \<Rightarrow> None
              | Some (fp, s2) \<Rightarrow>
                  (case scan_exp s2 of
                     None \<Rightarrow> None
                   | Some (ep, s3) \<Rightarrow> Some (sg @ ip @ fp @ ep, s3))))"

text \<open>
  The recursive descent over values. The first argument bounds the depth of the calls.
  Of two calls nested in each other at least one reads a character before it calls, so the
  depth stays below twice the length of the text plus one, and the bound that
  \<open>JSON_parse\<close> passes is never reached. \<open>None\<close> is the \<open>SyntaxError\<close>.
\<close>

fun parse_value :: "nat \<Rightarrow> string \<Rightarrow> (json \<times> string) option"
  and parse_elements :: "nat \<Rightarrow> string \<Rightarrow> (json list \<times> string) option"
  and parse_members :: "nat \<Rightarrow> string \<Rightarrow> ((string \<times> json) list \<times> string) option"
where
  "parse_value 0 s = None"
| "parse_value (Suc k) s =
     (case skip_ws s of
        [] \<Rightarrow> None
      | c # r \<Rightarrow>
          if c = CHR ''{'' then
            (case skip_ws r of
               [] \<Rightarrow> None
             | c1 # r1 \<Rightarrow>
                 if c1 = CHR ''}'' then Some (JObj [], r1)
                 else map_option (\<lambda>(ms, rest). (JObj ms, rest)) (parse_members k (c1 # r1)))
          else if c = CHR ''['' then
            (case skip_ws r of
               [] \<Rightarrow> None
             | c1 # r1 \<Rightarrow>
                 if c1 = CHR '']'' then Some (JArr [], r1)
                 else map_option (\<lambda>(vs, rest). (JArr vs, rest)) (parse_elements k (c1 # r1)))
          else if c = DQ then map_option (\<lambda>(t, rest). (JStr t, rest)) (parse_string r)
          else if prefix ''true'' (c # r) then Some (JBool True, drop 4 (c # r))
          else if prefix ''false'' (c # r) then Some (JBool False, drop 5 (c # r))
          else if prefix ''null'' (c # r) then Some (JNull, drop 4 (c # r))
          else map_option (\<lambda>(t, rest). (JNum t, rest)) (parse_number (c # r)))"
| "parse_elements 0 s = None"
| "parse_elements (Suc k) s =
     (case parse_value k s of
        None \<Rightarrow> None
      | Some (v, r) \<Rightarrow>
          (case skip_ws r of
             [] \<Rightarrow> None
           | c # r1 \<Rightarrow>
               if c = CHR '']'' then Some ([v], r1)
               else if c = CHR '','' then
                 map_option (\<lambda>(vs, rest). (v # vs, rest)) (parse_elements k r1)
               else None))"
| "parse_members 0 s = None"
| "parse_members (Suc k) s =
     (case skip_ws s of
        [] \<Rightarrow> None
      | q # r \<Rightarrow>
          if q = DQ then
            (case parse_string r of
               None \<Rightarrow> None
             | Some (key, r1) \<Rightarrow>
                 (case skip_ws r1 of
                    [] \<Rightarrow> None
                  | c # r2 \<Rightarrow>
                      if c = CHR '':'' then
                        (case parse_value k r2 of
                           None \<Rightarrow> None
                         | Some (v, r3) \<Rightarrow>
                             (case skip_ws r3 of
                                [] \<Rightarrow> None
                              | c' # r4 \<Rightarrow>
                                  if c' = CHR ''}'' then Some ([(key, v)], r4)
                                  else if c' = CHR '','' then
                                    map_option (\<lambda>(ms, rest). ((key, v) # ms, rest))
                                      (parse_members k r4)
                                  else None))
                      else None))
          else None)"

lemmas parse_numeral [simp] =
  parse_value.simps(2)[where k = "pred_numeral n", folded numeral_eq_Suc]
  parse_elements.simps(2)[where k = "pred_numeral n", folded numeral_eq_Suc]
  parse_members.simps(2)[where k = "pred_numeral n", folded numeral_eq_Suc]
  for n

definition JSON_parse :: "string \<Rightarrow> json option" where
  "JSON_parse s =
     (case parse_value (2 * length s + 2) s of
        None \<Rightarrow> None
      | Some (v, r) \<Rightarrow> if skip_ws r = [] then Some v else None)"

section \<open>The worker (the chat endpoint)\<close>

text \<open>
  What a call that draws random numbers comes to: it returns, it throws, or the draws
  supplied ran out while it was still asking for one (\<open>crypto.getRandomValues\<close> is the
  list of the 32-bit values it will hand out, in order).
\<close>

datatype 'a result = Returns 'a | Throws | Exhausted

subsection \<open>Messages\<close>

text \<open>
  Modelled from the spec: the type \<open>ChatMessage\<close> of \<open>./types\<close>, which is not among the
  sources: \<open>{ role: one of {system, user, assistant}, content: text }\<close>.
\<close>

datatype role = System | User | Assistant

record ChatMessage =
  role :: role
  content :: string

text \<open>The optional \<open>casus\<close> object of the request body; a field is \<open>None\<close> when it is absent.\<close>

record CasusProfile =
  mode :: "string option"
  univers :: "string option"
  style :: "string option"

definition SYSTEM_PROMPT :: string where
  "SYSTEM_PROMPT = join [LF]
     [''Tu es Casus, un assistant de jeu de r'' @ [CHR 0xC3, CHR 0xB4] @ ''le (JdR) en fran''
        @ [CHR 0xC3, CHR 0xA7] @ ''ais.'',
      ''Ton but: aider '' @ [CHR 0xC3, CHR 0xA0] @ '' cr'' @ [CHR 0xC3, CHR 0xA9]
        @ ''er des aventures, PNJ, intrigues, ambiances, r'' @ [CHR 0xC3, CHR 0xA8]
        @ ''gles maison, sc'' @ [CHR 0xC3, CHR 0xA8] @ ''nes, et '' @ [CHR 0xC3, CHR 0xA0]
        @ '' ma'' @ [CHR 0xC3, CHR 0xAE] @ ''triser des parties.'',
      ''Style: clair, vivant, concret, orient'' @ [CHR 0xC3, CHR 0xA9]
        @ '' action; propose des options; pose 1'' @ [CHR 0xE2, CHR 0x80, CHR 0x93]
        @ ''3 questions quand une info manque.'',
      ''Ne r'' @ [CHR 0xC3, CHR 0xA9] @ ''v'' @ [CHR 0xC3, CHR 0xA8] @ ''le pas d'' @ [CHR 0x27]
        @ ''infos non demand'' @ [CHR 0xC3, CHR 0xA9] @ ''es. '' @ [CHR 0xC3, CHR 0x89]
        @ ''vite les pav'' @ [CHR 0xC3, CHR 0xA9]
        @ ''s: utilise des listes courtes et des titres.'',
      ''S'' @ [CHR 0xC3, CHR 0xA9] @ ''curit'' @ [CHR 0xC3, CHR 0xA9]
        @ '': pas de contenu ill'' @ [CHR 0xC3, CHR 0xA9]
        @ ''gal; si un sujet est sensible, recentre vers une alternative s''
        @ [CHR 0xC3, CHR 0xBB] @ ''re.'']"

subsection \<open>buildCasusProfileSystemMessage\<close>

definition mj_line :: string where
  "mj_line = ''Mode: MJ (aide '' @ [CHR 0xC3, CHR 0xA0] @ '' ma'' @ [CHR 0xC3, CHR 0xAE]
     @ ''triser, pr'' @ [CHR 0xC3, CHR 0xA9] @ ''parer, improviser).''"

definition joueur_line :: string where
  "joueur_line = ''Mode: Joueur (aide '' @ [CHR 0xC3, CHR 0xA0]
     @ '' incarner, proposer des actions, optimiser sans spoiler).''"

text \<open>
  \<open>x?.trim()\<close> is \<^term>\<open>map_option trim x\<close>; \<open>if (univers)\<close> holds for a string that is
  there and not empty. \<open>lines.push\<close> appends.
\<close>

definition buildCasusProfileSystemMessage :: "CasusProfile option \<Rightarrow> ChatMessage option" where
  "buildCasusProfileSystemMessage casus =
     (case casus of
        None \<Rightarrow> None
      | Some c \<Rightarrow>
          (let mode' = map_option trim (mode c);
               univers' = map_option trim (univers c);
               style' = map_option trim (style c);
               lines0 = [];
               lines1 = (if mode' = Some ''mj'' then lines0 @ [mj_line] else lines0);
               lines2 = (if mode' = Some ''joueur'' then lines1 @ [joueur_line] else lines1);
               lines3 = (case univers' of
                           Some u \<Rightarrow> if u \<noteq> [] then lines2 @ [''Univers/ton: '' @ u] else lines2
                         | None \<Rightarrow> lines2);
               lines4 = (case style' of
                           Some t \<Rightarrow>
                             if t \<noteq> [] then lines3 @ [''Contraintes de style: '' @ t] else lines3
                         | None \<Rightarrow> lines3)
           in if length lines4 = 0 then None
              else Some \<lparr>role = System,
                         content = ''Contexte de partie:'' @ [LF] @ join [LF] lines4\<rparr>))"

subsection \<open>randIntInclusive\<close>

type_synonym u32 = "32 word"

text \<open>The \<open>while (true)\<close> loop: one draw per round, until a draw is below \<open>limit\<close>.\<close>

fun rejection_loop :: "int \<Rightarrow> int \<Rightarrow> int \<Rightarrow> u32 list \<Rightarrow> (int \<times> u32 list) result" where
  "rejection_loop lo rng limit [] = Exhausted"
| "rejection_loop lo rng limit (x # draws) =
     (if uint x < limit then Returns (lo + uint x mod rng, draws)
      else rejection_loop lo rng limit draws)"

text \<open>
  The callers pass integers, on which \<open>Math.ceil\<close> and \<open>Math.floor\<close> are the identity.
  The result comes with the draws that are left. The local \<open>range\<close> of the source is
  \<open>rng\<close> here.
\<close>

definition randIntInclusive :: "int \<Rightarrow> int \<Rightarrow> u32 list \<Rightarrow> (int \<times> u32 list) result" where
  "randIntInclusive lo hi draws =
     (if hi < lo then Throws
      else
        (let rng = hi - lo + 1;
             maxUint32 = 0xffffffff;
             limit = maxUint32 - (maxUint32 mod rng)
         in rejection_loop lo rng limit draws))"

subsection \<open>rollDiceCommand\<close>

definition usage_msg :: string where
  "usage_msg = ''Utilisation: '' @ [CHR 0x60] @ ''/roll NdM+K'' @ [CHR 0x60] @ '' (ex: ''
     @ [CHR 0x60] @ ''/roll 2d6+1'' @ [CHR 0x60] @ '', '' @ [CHR 0x60] @ ''/roll d20''
     @ [CHR 0x60] @ '', '' @ [CHR 0x60] @ ''/roll 1d20 adv'' @ [CHR 0x60] @ '').''"

definition format_msg :: string where
  "format_msg = ''Format invalide. Exemple: '' @ [CHR 0x60] @ ''/roll 2d6+1'' @ [CHR 0x60]
     @ '' ou '' @ [CHR 0x60] @ ''/roll d20'' @ [CHR 0x60] @ ''.''"

definition invalid_msg :: string where
  "invalid_msg = ''Expression de d'' @ [CHR 0xC3, CHR 0xA9] @ '' invalide.''"

definition count_msg :: string where
  "count_msg = ''Nombre de d'' @ [CHR 0xC3, CHR 0xA9] @ ''s hors limite (1''
     @ [CHR 0xE2, CHR 0x80, CHR 0x93] @ ''50).''"

definition faces_msg :: string where
  "faces_msg = ''Nombre de faces hors limite (2'' @ [CHR 0xE2, CHR 0x80, CHR 0x93] @ ''1000).''"

definition unsupported_msg :: string where
  "unsupported_msg = ''Le mode '' @ [CHR 0x60] @ ''adv'' @ [CHR 0x60] @ ''/'' @ [CHR 0x60]
     @ ''dis'' @ [CHR 0x60] @ '' est support'' @ [CHR 0xC3, CHR 0xA9] @ '' uniquement pour ''
     @ [CHR 0x60] @ ''/roll 1d20 adv'' @ [CHR 0x60] @ '' ou '' @ [CHR 0x60]
     @ ''/roll 1d20 dis'' @ [CHR 0x60] @ ''.''"

definition dice_emoji :: string where
  "dice_emoji = [CHR 0xF0, CHR 0x9F, CHR 0x8E, CHR 0xB2]"

text \<open>\<open>mod === 0 ? "" : mod > 0 ? `+${mod}` : `${mod}`\<close>\<close>

definition modStr_of :: "(jsnum \<Rightarrow> string) \<Rightarrow> int \<Rightarrow> string" where
  "modStr_of str md = (if md = 0 then [] else if md > 0 then ''+'' @ str (Fin md) else str (Fin md))"

text \<open>\<open>mod !== 0 ? ` (${modStr})` : ""\<close>\<close>

definition mod_suffix :: "(jsnum \<Rightarrow> string) \<Rightarrow> int \<Rightarrow> string" where
  "mod_suffix str md = (if md \<noteq> 0 then '' ('' @ modStr_of str md @ '')'' else [])"

text \<open>The \<open>for (let i = 0; i < n; i++)\<close> loop, \<open>rolls.push\<close> appending.\<close>

fun roll_loop :: "nat \<Rightarrow> int \<Rightarrow> u32 list \<Rightarrow> (int list \<times> u32 list) result" where
  "roll_loop 0 faces draws = Returns ([], draws)"
| "roll_loop (Suc k) faces draws =
     (case randIntInclusive 1 faces draws of
        Returns (v, rest) \<Rightarrow>
          (case roll_loop k faces rest of
             Returns (vs, rest') \<Rightarrow> Returns (v # vs, rest')
           | Throws \<Rightarrow> Throws
           | Exhausted \<Rightarrow> Exhausted)
      | Throws \<Rightarrow> Throws
      | Exhausted \<Rightarrow> Exhausted)"

lemmas roll_loop_numeral [simp] =
  roll_loop.simps(2)[where k = "pred_numeral n", folded numeral_eq_Suc] for n

text \<open>\<open>rolls.reduce((acc, v) => acc + v, 0)\<close>\<close>

definition sum_rolls :: "int list \<Rightarrow> jsnum" where
  "sum_rolls rolls = foldl (\<lambda>acc v. js_add acc (Fin v)) (Fin 0) rolls"

text \<open>
  \<open>str\<close> prints a number (the template literals and \<open>rolls.join\<close> call it). The two
  \<open>return [ ... ].join("\n")\<close> of the source are the two reports.
\<close>

definition advdis_report ::
  "(jsnum \<Rightarrow> string) \<Rightarrow> bool \<Rightarrow> int \<Rightarrow> int \<Rightarrow> int \<Rightarrow> int \<Rightarrow> jsnum \<Rightarrow> string" where
  "advdis_report str wantAdv a b kept md tot =
     join [LF]
       [dice_emoji @ '' /roll 1d20 '' @ (if wantAdv then ''adv'' else ''dis'') @ modStr_of str md,
        ''Jets: '' @ str (Fin a) @ '', '' @ str (Fin b) @ '' '' @ [CHR 0xE2, CHR 0x86, CHR 0x92]
          @ '' gard'' @ [CHR 0xC3, CHR 0xA9] @ '': '' @ str (Fin kept) @ mod_suffix str md,
        ''Total: '' @ str tot]"

definition roll_report ::
  "(jsnum \<Rightarrow> string) \<Rightarrow> int \<Rightarrow> int \<Rightarrow> int \<Rightarrow> int list \<Rightarrow> jsnum \<Rightarrow> string" where
  "roll_report str n faces md rolls tot =
     join [LF]
       [dice_emoji @ '' /roll '' @ str (Fin n) @ ''d'' @ str (Fin faces) @ modStr_of str md,
        ''Jets: '' @ join '', '' (map (\<lambda>v. str (Fin v)) rolls) @ mod_suffix str md,
        ''Total: '' @ str tot]"

text \<open>
  \<open>Number.isFinite\<close> on the three numbers: their integer values when each of them is
  finite.
\<close>

definition all_finite :: "jsnum \<Rightarrow> jsnum \<Rightarrow> jsnum \<Rightarrow> (int \<times> int \<times> int) option" where
  "all_finite n faces md =
     (case (n, faces, md) of
        (Fin n', Fin faces', Fin md') \<Rightarrow> Some (n', faces', md')
      | _ \<Rightarrow> None)"

text \<open>
  The locals \<open>mod\<close>, \<open>mode\<close> and \<open>sum\<close> of the source are \<open>md\<close>, \<open>mode_s\<close> and \<open>sm\<close> here, and
  \<open>tokens\<close> is \<open>expr # others\<close> (\<open>split\<close> never gives an empty array).
\<close>

definition rollDiceCommand :: "(jsnum \<Rightarrow> string) \<Rightarrow> string \<Rightarrow> u32 list \<Rightarrow> string result" where
  "rollDiceCommand str input draws =
     (let rest = trim (strip_roll input) in
      if rest = [] then Returns usage_msg
      else
        (case split_ws rest of
           [] \<Rightarrow> Throws
         | expr # others \<Rightarrow>
             (let mode_s = toLowerCase (join '' '' others) in
              case match_dice expr of
                None \<Rightarrow> Returns format_msg
              | Some (m1, m2, m3) \<Rightarrow>
                  (let n = (if m1 \<noteq> [] then Number_of m1 else Fin 1);
                       faces = Number_of m2;
                       md = (case m3 of Some s \<Rightarrow> Number_of s | None \<Rightarrow> Fin 0)
                   in case all_finite n faces md of
                        None \<Rightarrow> Returns invalid_msg
                      | Some (n, faces, md) \<Rightarrow>
                          if n < 1 \<or> n > 50 then Returns count_msg
                          else if faces < 2 \<or> faces > 1000 then Returns faces_msg
                          else
                            (let wantAdv = test_word ''adv'' mode_s;
                                 wantDis = test_word ''dis'' mode_s
                             in if (wantAdv \<or> wantDis) \<and> \<not> (n = 1 \<and> faces = 20)
                                then Returns unsupported_msg
                                else if wantAdv \<or> wantDis then
                                  (case randIntInclusive 1 20 draws of
                                     Returns (a, draws1) \<Rightarrow>
                                       (case randIntInclusive 1 20 draws1 of
                                          Returns (b, draws2) \<Rightarrow>
                                            (let kept = (if wantAdv then max a b else min a b);
                                                 total = js_add (Fin kept) (Fin md)
                                             in Returns
                                                  (advdis_report str wantAdv a b kept md total))
                                        | Throws \<Rightarrow> Throws
                                        | Exhausted \<Rightarrow> Exhausted)
                                   | Throws \<Rightarrow> Throws
                                   | Exhausted \<Rightarrow> Exhausted)
                                else
                                  (case roll_loop (nat n) faces draws of
                                     Returns (rolls, draws1) \<Rightarrow>
                                       (let sm = sum_rolls rolls;
                                            total = js_add sm (Fin md)
                                        in Returns (roll_report str n faces md rolls total))
                                   | Throws \<Rightarrow> Throws
                                   | Exhausted \<Rightarrow> Exhausted))))))"

subsection \<open>handleCommand\<close>

definition help_msg :: string where
  "help_msg = join [LF]
     [''Commandes Casus :'',
      ''- /roll 2d6+1  (ex: /roll d20, /roll 1d20 adv, /roll 1d20 dis)'',
      ''- /help'']"

definition handleCommand :: "(jsnum \<Rightarrow> string) \<Rightarrow> string \<Rightarrow> u32 list \<Rightarrow> string option result" where
  "handleCommand str raw draws =
     (let input = trim raw in
      if toLowerCase input = ''/help'' then Returns (Some help_msg)
      else if prefix ''/roll'' (toLowerCase input) then
        (case rollDiceCommand str input draws of
           Returns reply \<Rightarrow> Returns (Some reply)
         | Throws \<Rightarrow> Throws
         | Exhausted \<Rightarrow> Exhausted)
      else Returns None)"

subsection \<open>sseTextResponse\<close>

text \<open>The body of the response: the chunks that \<open>start\<close> enqueues before it closes the stream.\<close>

definition sseTextResponse :: "string \<Rightarrow> string list" where
  "sseTextResponse text =
     [''data: '' @ stringify_response text @ [LF, LF],
      ''data: [DONE]'' @ [LF, LF]]"

subsection \<open>handleChatRequest\<close>

text \<open>
  The response: the event stream of a command's reply, the stream of the model run on
  the list of messages passed to \<open>env.AI.run\<close> (relayed as it comes), or the status 500 of
  the \<open>catch\<close>.
\<close>

datatype response =
    SseText "string list"
  | ModelStream "ChatMessage list"
  | ServerError

text \<open>\<open>xs.findIndex(p)\<close>, \<open>-1\<close> when no element satisfies \<open>p\<close>.\<close>

fun findIndex :: "('a \<Rightarrow> bool) \<Rightarrow> 'a list \<Rightarrow> int" where
  "findIndex p [] = - 1"
| "findIndex p (x # xs) =
     (if p x then 0 else (let i = findIndex p xs in if i = - 1 then - 1 else i + 1))"

text \<open>\<open>xs.splice(start, 0, x)\<close>: a negative \<open>start\<close> counts from the end, and \<open>start\<close> is clamped.\<close>

definition splice_in :: "int \<Rightarrow> 'a \<Rightarrow> 'a list \<Rightarrow> 'a list" where
  "splice_in start x xs =
     (let len = int (length xs);
          k = (if start < 0 then max (len + start) 0 else min start len)
      in take (nat k) xs @ [x] @ drop (nat k) xs)"

definition handleChatRequest ::
  "(jsnum \<Rightarrow> string) \<Rightarrow> ChatMessage list \<Rightarrow> CasusProfile option \<Rightarrow> u32 list \<Rightarrow> response result"
where
  "handleChatRequest str messages casus draws =
     (let lastUser = find (\<lambda>m. role m = User) (rev messages) in
      case (case lastUser of
              Some m \<Rightarrow> handleCommand str (content m) draws
            | None \<Rightarrow> Returns None) of
        Exhausted \<Rightarrow> Exhausted
      | Throws \<Rightarrow> Returns ServerError
      | Returns commandResponse \<Rightarrow>
          (case (case commandResponse of
                   Some reply \<Rightarrow> if reply \<noteq> [] then Some reply else None
                 | None \<Rightarrow> None) of
             Some reply \<Rightarrow> Returns (SseText (sseTextResponse reply))
           | None \<Rightarrow>
               (let hasCasusSystem =
                      list_ex (\<lambda>msg. role msg = System \<and> includes_str (content msg) ''Tu es Casus'')
                        messages;
                    messages1 = (if \<not> hasCasusSystem
                                 then \<lparr>role = System, content = SYSTEM_PROMPT\<rparr> # messages
                                 else messages);
                    profile = buildCasusProfileSystemMessage casus;
                    messages2 =
                      (case profile of
                         Some p \<Rightarrow>
                           (let insertAt = min 1 (findIndex (\<lambda>m. role m \<noteq> System) messages1);
                                idx = (if insertAt = - 1 then 1 else insertAt)
                            in splice_in idx p messages1)
                       | None \<Rightarrow> messages1)
                in Returns (ModelStream messages2))))"

section \<open>The client's reader of the event stream (public/chat.js)\<close>

subsection \<open>consumeSseEvents\<close>

text \<open>\<open>buffer.replace(/\r/g, "")\<close>: the scan of the global replace, dropping each match.\<close>

fun replace_cr :: "string \<Rightarrow> string" where
  "replace_cr [] = []"
| "replace_cr (c # s) = (if c = CR then replace_cr s else c # replace_cr s)"

record sse_parsed =
  events :: "string list"
  buffer :: string

text \<open>The inner \<open>for (const line of lines)\<close>: the payloads of the \<open>data:\<close> lines of one raw event.\<close>

definition dataLines_of :: "string \<Rightarrow> string list" where
  "dataLines_of rawEvent =
     map (\<lambda>line. trimStart (drop (length ''data:'') line))
       (filter (\<lambda>line. prefix ''data:'' line) (split_on LF rawEvent))"

text \<open>The \<open>while ((eventEndIndex = normalized.indexOf("\n\n")) !== -1)\<close> loop.\<close>

function sse_loop :: "string \<Rightarrow> string list \<Rightarrow> sse_parsed" where
  "sse_loop normalized evs =
     (case indexOf normalized [LF, LF] of
        None \<Rightarrow> \<lparr>events = evs, buffer = normalized\<rparr>
      | Some eventEndIndex \<Rightarrow>
          (let rawEvent = take eventEndIndex normalized;
               normalized' = drop (eventEndIndex + 2) normalized;
               dataLines = dataLines_of rawEvent
           in if length dataLines = 0 then sse_loop normalized' evs
              else sse_loop normalized' (evs @ [join [LF] dataLines])))"
  by pat_completeness auto
termination
proof (relation "measure (\<lambda>(n, e). length n)")
  show "wf (measure (\<lambda>(n, e). length n))" by simp
next
  fix normalized :: string and evs :: "string list" and i x xa xb
  assume "indexOf normalized [LF, LF] = Some i" "xa = drop (i + 2) normalized"
  then show "((xa, evs), normalized, evs) \<in> measure (\<lambda>(n, e). length n)"
    using indexOf_bound[of normalized "[LF, LF]" i] by simp
next
  fix normalized :: string and evs :: "string list" and i x xa xb
  assume "indexOf normalized [LF, LF] = Some i" "xa = drop (i + 2) normalized"
  then show "((xa, evs @ [join [LF] xb]), normalized, evs) \<in> measure (\<lambda>(n, e). length n)"
    using indexOf_bound[of normalized "[LF, LF]" i] by simp
qed

declare sse_loop.simps [simp del]

definition consumeSseEvents :: "string \<Rightarrow> sse_parsed" where
  "consumeSseEvents buf = sse_loop (replace_cr buf) []"

subsection \<open>The text of one payload\<close>

text \<open>
  Reading a property of a parsed value; \<open>None\<close> is \<open>undefined\<close>. Only an object has the
  properties the program asks for (of a key given twice, \<open>JSON.parse\<close> keeps the last).
\<close>

definition get_prop :: "string \<Rightarrow> json \<Rightarrow> json option" where
  "get_prop key v = (case v of JObj ms \<Rightarrow> map_of (rev ms) key | _ \<Rightarrow> None)"

text \<open>
  \<open>v[0]\<close>: the first element of an array, the property \<open>0\<close> of an object, the first
  character of a string (of which the program only asks for a property it does not have).
\<close>

definition index0 :: "json \<Rightarrow> json option" where
  "index0 v =
     (case v of
        JArr xs \<Rightarrow> (case xs of [] \<Rightarrow> None | x # _ \<Rightarrow> Some x)
      | JObj ms \<Rightarrow> get_prop ''0'' v
      | JStr s \<Rightarrow> (if s = [] then None else Some (JStr (take 1 s)))
      | _ \<Rightarrow> None)"

text \<open>The optional chaining \<open>?.\<close>: \<open>undefined\<close> when what stands before it is \<open>undefined\<close> or \<open>null\<close>.\<close>

definition opt_chain :: "(json \<Rightarrow> json option) \<Rightarrow> json option \<Rightarrow> json option" where
  "opt_chain f v = (case v of None \<Rightarrow> None | Some JNull \<Rightarrow> None | Some j \<Rightarrow> f j)"

text \<open>
  A number is given by the text of its literal; \<open>num_text\<close> is the platform's printing of
  the double that the literal denotes (\<open>"0"\<close> for the two zeros only).
\<close>

definition js_truthy :: "(string \<Rightarrow> string) \<Rightarrow> json option \<Rightarrow> bool" where
  "js_truthy num_text v =
     (case v of
        None \<Rightarrow> False
      | Some JNull \<Rightarrow> False
      | Some (JBool b) \<Rightarrow> b
      | Some (JNum l) \<Rightarrow> num_text l \<noteq> ''0''
      | Some (JStr s) \<Rightarrow> s \<noteq> []
      | Some (JArr xs) \<Rightarrow> True
      | Some (JObj ms) \<Rightarrow> True)"

text \<open>
  The string that \<open>responseText += content\<close> appends for a value; \<open>None\<close> is the \<open>TypeError\<close>
  of a conversion that fails. Nothing that \<open>JSON.parse\<close> gives is callable, so an object
  with a property \<open>toString\<close> of its own has no usable conversion: of the two methods
  tried, \<open>toString\<close> is not callable and \<open>valueOf\<close> is either not callable or gives back the
  object. Every other object is \<open>"[object Object]"\<close>. An array joins the strings of its
  elements with commas, \<open>null\<close> counting as the empty string.
\<close>

fun js_string :: "(string \<Rightarrow> string) \<Rightarrow> json \<Rightarrow> string option" where
  "js_string num_text JNull = Some ''null''"
| "js_string num_text (JBool b) = Some (if b then ''true'' else ''false'')"
| "js_string num_text (JNum l) = Some (num_text l)"
| "js_string num_text (JStr s) = Some s"
| "js_string num_text (JArr xs) =
     map_option (join '','')
       (those (map (\<lambda>x. if x = JNull then Some [] else js_string num_text x) xs))"
| "js_string num_text (JObj ms) =
     (if ''toString'' \<in> set (map fst ms) then None else Some ''[object Object]'')"

text \<open>
  The body of the \<open>try\<close> for one payload, and its \<open>catch\<close>: the response text after it.
  A payload that is no JSON, or is \<open>null\<close> (whose property cannot be read), or whose content
  has no string, throws and leaves the text as it is.
\<close>

definition append_payload :: "(string \<Rightarrow> string) \<Rightarrow> string \<Rightarrow> string \<Rightarrow> string" where
  "append_payload num_text responseText data =
     (case JSON_parse data of
        None \<Rightarrow> responseText
      | Some JNull \<Rightarrow> responseText
      | Some jsonData \<Rightarrow>
          (let content0 = Some (JStr []);
               delta_content =
                 opt_chain (get_prop ''content'')
                   (opt_chain (get_prop ''delta'')
                      (opt_chain index0 (get_prop ''choices'' jsonData)));
               content =
                 (case get_prop ''response'' jsonData of
                    Some (JStr s) \<Rightarrow>
                      if length s > 0 then Some (JStr s)
                      else if js_truthy num_text delta_content then delta_content
                      else content0
                  | _ \<Rightarrow>
                      if js_truthy num_text delta_content then delta_content else content0)
           in if js_truthy num_text content
              then (case content of
                      Some v \<Rightarrow>
                        (case js_string num_text v of
                           Some t \<Rightarrow> responseText @ t
                         | None \<Rightarrow> responseText)
                    | None \<Rightarrow> responseText)
              else responseText))"

text \<open>
  The \<open>for (const data of parsed.events)\<close> loop, which the source has twice: the response
  text after it, and whether it met the sentinel.
\<close>

fun handle_events :: "(string \<Rightarrow> string) \<Rightarrow> string list \<Rightarrow> string \<Rightarrow> string \<times> bool" where
  "handle_events num_text [] responseText = (responseText, False)"
| "handle_events num_text (data # rest) responseText =
     (if data = ''[DONE]'' then (responseText, True)
      else handle_events num_text rest (append_payload num_text responseText data))"

subsection \<open>The read loop of sendMessage\<close>

text \<open>
  \<open>decoder.decode(value, { stream: true })\<close> on well-formed UTF-8: the bytes of a character
  that the chunks so far leave unfinished are held back. \<open>utf8_need c\<close> is the length of
  the sequence that the byte \<open>c\<close> starts.
\<close>

definition utf8_need :: "char \<Rightarrow> nat" where
  "utf8_need c =
     (let n = (of_char c :: nat) in
      if 0xC2 \<le> n \<and> n \<le> 0xDF then 2
      else if 0xE0 \<le> n \<and> n \<le> 0xEF then 3
      else if 0xF0 \<le> n \<and> n \<le> 0xF4 then 4
      else 0)"

definition utf8_cont :: "char \<Rightarrow> bool" where
  "utf8_cont c = (0x80 \<le> (of_char c :: nat) \<and> (of_char c :: nat) \<le> 0xBF)"

definition utf8_incomplete :: "string \<Rightarrow> nat" where
  "utf8_incomplete b =
     (case rev b of
        [] \<Rightarrow> 0
      | c # r \<Rightarrow>
          if 2 \<le> utf8_need c then 1
          else if utf8_cont c then
            (case r of
               [] \<Rightarrow> 0
             | c2 # r2 \<Rightarrow>
                 if 3 \<le> utf8_need c2 then 2
                 else if utf8_cont c2 then
                   (case r2 of [] \<Rightarrow> 0 | c3 # r3 \<Rightarrow> if 4 \<le> utf8_need c3 then 3 else 0)
                 else 0)
          else 0)"

text \<open>
  The decoder drops a byte order mark (U+FEFF, the bytes \<open>EF BB BF\<close>) when it is the first
  character that it gives out. Its state is the bytes held back and whether it has given
  out a character yet.
\<close>

definition strip_bom :: "string \<Rightarrow> string" where
  "strip_bom out = (if prefix [CHR 0xEF, CHR 0xBB, CHR 0xBF] out then drop 3 out else out)"

definition decode_chunk :: "string \<Rightarrow> bool \<Rightarrow> string \<Rightarrow> string \<times> string \<times> bool" where
  "decode_chunk pending seen v =
     (let b = pending @ v; k = utf8_incomplete b;
          out = take (length b - k) b; held = drop (length b - k) b
      in if seen \<or> out = [] then (out, held, seen) else (strip_bom out, held, True))"

text \<open>
  How the loop ends: the response text, the carry-over buffer, and the chunks it never
  read.
\<close>

record stream_end =
  final_text :: string
  final_buffer :: string
  unread :: "string list"

text \<open>
  The \<open>while (true)\<close> loop over \<open>reader.read()\<close>. The list holds the chunks the reader will
  hand out; after the last one it reports \<open>done\<close>. \<open>pending\<close> and \<open>seen\<close> are the state of the
  decoder.
\<close>

fun read_loop ::
  "(string \<Rightarrow> string) \<Rightarrow> string \<Rightarrow> string \<Rightarrow> string \<Rightarrow> bool \<Rightarrow> string list \<Rightarrow> stream_end"
where
  "read_loop num_text responseText buf pending seen [] =
     (let parsed = consumeSseEvents (buf @ [LF, LF])
      in \<lparr>final_text = fst (handle_events num_text (events parsed) responseText),
          final_buffer = buf, unread = []\<rparr>)"
| "read_loop num_text responseText buf pending seen (v # reads) =
     (let (txt, pending', seen') = decode_chunk pending seen v;
          buf1 = buf @ txt;
          parsed = consumeSseEvents buf1;
          buf2 = buffer parsed;
          (responseText', sawDone) = handle_events num_text (events parsed) responseText
      in if sawDone then \<lparr>final_text = responseText', final_buffer = [], unread = reads\<rparr>
         else read_loop num_text responseText' buf2 pending' seen' reads)"

text \<open>The loop from its initial state (\<open>responseText = ""\<close>, \<open>buffer = ""\<close>, a fresh decoder).\<close>

definition read_stream :: "(string \<Rightarrow> string) \<Rightarrow> string list \<Rightarrow> stream_end" where
  "read_stream num_text reads = read_loop num_text [] [] [] False reads"

section \<open>Normalisation of the buffer\<close>

lemma replace_cr_filter: "replace_cr s = filter (\<lambda>c. c \<noteq> CR) s"
  by (induction s) auto

lemma replace_cr_append: "replace_cr (a @ b) = replace_cr a @ replace_cr b"
  by (simp add: replace_cr_filter)

lemma replace_cr_idem: "replace_cr (replace_cr s) = replace_cr s"
  by (simp add: replace_cr_filter)

text \<open>
  C8, as the code has it. The normalisation that \<open>consumeSseEvents\<close> performs before it
  looks for \<open>\n\n\<close> removes every carriage return: each \<open>\r\n\<close> becomes \<open>\n\<close>, a \<open>\r\<close>
  that stands alone is removed as well, every other character is kept, in order, and the
  parser's result depends on the buffer only through the normalised text.
\<close>

theorem normalization_removes_every_cr:
  "replace_cr s = filter (\<lambda>c. c \<noteq> CR) s
   \<and> replace_cr (a @ [CR, LF] @ b) = replace_cr a @ [LF] @ replace_cr b
   \<and> replace_cr (a @ [CR] @ b) = replace_cr a @ replace_cr b
   \<and> consumeSseEvents s = consumeSseEvents (replace_cr s)"
  by (simp add: replace_cr_append consumeSseEvents_def replace_cr_idem)
    (simp add: replace_cr_filter)

theorem normalization_removes_every_cr_witness:
  "replace_cr (''a'' @ [CR, LF] @ ''b'' @ [CR] @ ''c'') = ''a'' @ [LF] @ ''bc''
   \<and> consumeSseEvents (''a'' @ [CR, LF] @ ''b'' @ [CR] @ ''c'')
       = consumeSseEvents (''a'' @ [LF] @ ''bc'')"
  using normalization_removes_every_cr[of "''a'' @ [CR, LF] @ ''b'' @ [CR] @ ''c''" "''a''" "''b''"]
  by simp

text \<open>
  C8, as the specification states it, fails: a carriage return that is not followed by a
  line feed, inside a data payload, does not survive the normalisation.
\<close>

theorem lone_cr_is_removed_counterexample:
  "replace_cr (''a'' @ [CR] @ ''b'') = ''ab''
   \<and> replace_cr (''a'' @ [CR] @ ''b'') \<noteq> ''a'' @ [CR] @ ''b''
   \<and> events (consumeSseEvents (''data: a'' @ [CR] @ ''b'' @ [LF, LF])) = [''ab'']"
  by (simp add: consumeSseEvents_def sse_loop.simps dataLines_of_def trimStart.simps
      ws1_def ws2_def ws3_def)

section \<open>The random draw\<close>

subsection \<open>Counting the draws that are accepted\<close>
lemma residue_class_image:
  fixes r q j :: int
  assumes "0 < r" "0 \<le> j" "j < r"
  shows "{n. 0 \<le> n \<and> n < q * r \<and> n mod r = j} = (\<lambda>i. i * r + j) ` {0..<q}"
proof (rule set_eqI, rule iffI)
  fix n
  assume "n \<in> {n. 0 \<le> n \<and> n < q * r \<and> n mod r = j}"
  then have n: "0 \<le> n" "n < q * r" "n mod r = j" by auto
  have "n = (n div r) * r + j" using n(3) by (metis div_mult_mod_eq)
  moreover have "0 \<le> n div r" using n(1) assms(1) by (simp add: pos_imp_zdiv_nonneg_iff)
  moreover have "n div r < q"
  proof (rule ccontr)
    assume "\<not> n div r < q"
    then have "q * r \<le> n div r * r" using assms(1) by (simp add: mult_right_mono)
    moreover have "n div r * r \<le> n"
      using assms(1) by (metis add.commute add_increasing div_mult_mod_eq order_refl pos_mod_sign)
    ultimately show False using n(2) by simp
  qed
  ultimately show "n \<in> (\<lambda>i. i * r + j) ` {0..<q}" by auto
next
  fix n
  assume "n \<in> (\<lambda>i. i * r + j) ` {0..<q}"
  then obtain i where i: "0 \<le> i" "i < q" "n = i * r + j" by auto
  have "0 \<le> i * r" using i(1) assms(1) by simp
  then have "0 \<le> n" using i(3) assms(2) by simp
  moreover have "n < q * r"
  proof -
    have "i + 1 \<le> q" using i(2) by simp
    then have "(i + 1) * r \<le> q * r" using assms(1) by (simp add: mult_right_mono)
    then show ?thesis using i(3) assms(3) by (simp add: algebra_simps)
  qed
  moreover have "n mod r = j" using i(3) assms by simp
  ultimately show "n \<in> {n. 0 \<le> n \<and> n < q * r \<and> n mod r = j}" by simp
qed

lemma residue_class_card:
  fixes r q j :: int
  assumes "0 < r" "0 \<le> j" "j < r"
  shows "card {n. 0 \<le> n \<and> n < q * r \<and> n mod r = j} = nat q"
proof -
  have "inj_on (\<lambda>i. i * r + j) {0..<q}"
    using assms(1) by (auto simp: inj_on_def)
  then have "card ((\<lambda>i. i * r + j) ` {0..<q}) = card {0..<q}" by (rule card_image)
  then show ?thesis using residue_class_image[OF assms] by simp
qed

lemma word_preimage_card:
  fixes P :: "int \<Rightarrow> bool"
  assumes "\<And>n. P n \<Longrightarrow> 0 \<le> n \<and> n < 2 ^ 32"
  shows "card {x :: u32. P (uint x)} = card {n. P n}"
proof -
  have "uint ` {x :: u32. P (uint x)} = {n. P n}"
  proof (rule set_eqI, rule iffI)
    fix n assume "n \<in> uint ` {x :: u32. P (uint x)}"
    then show "n \<in> {n. P n}" by auto
  next
    fix n assume "n \<in> {n. P n}"
    then have p: "P n" by simp
    then have "0 \<le> n" "n < 2 ^ 32" using assms by auto
    then have "uint (word_of_int n :: u32) = n"
      by (simp add: uint_word_of_int take_bit_int_eq_self)
    with p show "n \<in> uint ` {x :: u32. P (uint x)}"
      by (metis (mono_tags, lifting) image_eqI mem_Collect_eq)
  qed
  moreover have "inj_on uint {x :: u32. P (uint x)}"
    by (auto simp: inj_on_def intro: word_uint_eqI)
  ultimately show ?thesis by (metis card_image)
qed

lemma limit_facts:
  fixes r :: int
  assumes "2 \<le> r" "r \<le> 1000"
  shows "r dvd 0xffffffff - 0xffffffff mod r"
    and "0 < 0xffffffff - 0xffffffff mod r"
    and "0xffffffff - 0xffffffff mod r \<le> 0xffffffff"
proof -
  show "r dvd 0xffffffff - 0xffffffff mod r" by (simp add: dvd_minus_mod)
  have "0 \<le> (0xffffffff :: int) mod r" "(0xffffffff :: int) mod r < r" using assms by simp_all
  then show "0 < 0xffffffff - 0xffffffff mod r" "0xffffffff - 0xffffffff mod r \<le> 0xffffffff"
    using assms by linarith+
qed

lemma rejection_loop_range:
  assumes "rejection_loop lo rng limit draws = Returns (v, rest)" "0 < rng"
  shows "lo \<le> v \<and> v < lo + rng"
  using assms
proof (induction draws)
  case Nil
  then show ?case by simp
next
  case (Cons x draws)
  show ?case
  proof (cases "uint x < limit")
    case True
    with Cons.prems have "v = lo + uint x mod rng" by simp
    then show ?thesis using Cons.prems(2) by simp
  next
    case False
    with Cons show ?thesis by simp
  qed
qed

lemma rejection_loop_returns:
  assumes "\<exists>x \<in> set draws. uint x < limit"
  shows "\<exists>v rest. rejection_loop lo rng limit draws = Returns (v, rest)"
  using assms by (induction draws) auto

text \<open>
  C4. For a range size \<open>r\<close> from 2 to 1000, \<open>randIntInclusive(1, r)\<close> accepts exactly the 32-bit
  draws below \<open>limit = 0xffffffff - 0xffffffff % r\<close>, which is a positive multiple of \<open>r\<close>;
  it skips a draw that is not below the limit and maps an accepted draw \<open>x\<close> to
  \<open>1 + x % r\<close>. So each outcome from 1 to \<open>r\<close> has exactly \<open>limit / r\<close> accepted 32-bit
  values, a value that is returned lies between 1 and \<open>r\<close>, and the call returns as soon as
  the draws hold one that is accepted.
\<close>

theorem rejection_sampling_has_no_modulo_bias:
  fixes r :: int
  assumes "2 \<le> r" and "r \<le> 1000"
  shows
    "(let limit = 0xffffffff - 0xffffffff mod r in
       r dvd limit \<and> 0 < limit
       \<and> randIntInclusive 1 r [] = Exhausted
       \<and> randIntInclusive 1 r (x # draws) =
            (if uint x < limit then Returns (1 + uint x mod r, draws)
             else randIntInclusive 1 r draws)
       \<and> (\<forall>k \<in> {1..r}.
             card {y :: u32. uint y < limit \<and> 1 + uint y mod r = k} = nat (limit div r))
       \<and> (\<forall>v rest. randIntInclusive 1 r ds = Returns (v, rest) \<longrightarrow> 1 \<le> v \<and> v \<le> r)
       \<and> ((\<exists>y \<in> set ds. uint y < limit)
             \<longrightarrow> (\<exists>v rest. randIntInclusive 1 r ds = Returns (v, rest))))"
proof -
  define limit :: int where "limit = 0xffffffff - 0xffffffff mod r"
  have dvd: "r dvd limit" and pos: "0 < limit" and le: "limit \<le> 0xffffffff"
    using limit_facts[OF assms] by (simp_all add: limit_def)
  have unfold: "randIntInclusive 1 r d = rejection_loop 1 r limit d" for d
    using assms by (simp add: randIntInclusive_def limit_def)
  have count:
    "card {y :: u32. uint y < limit \<and> 1 + uint y mod r = k} = nat (limit div r)"
    if k: "k \<in> {1..r}" for k
  proof -
    have j: "0 \<le> k - 1" "k - 1 < r" using k by auto
    have r0: "0 < r" using assms by simp
    have lim: "limit = limit div r * r" using dvd by simp
    have "card {y :: u32. uint y < limit \<and> 1 + uint y mod r = k}
        = card {y :: u32. 0 \<le> uint y \<and> uint y < limit div r * r \<and> uint y mod r = k - 1}"
      using lim by (metis (no_types, opaque_lifting) add_diff_cancel_left' diff_add_cancel uint_ge_0)
    also have "\<dots> = card {n. 0 \<le> n \<and> n < limit div r * r \<and> n mod r = k - 1}"
      by (rule word_preimage_card[where P = "\<lambda>n. 0 \<le> n \<and> n < limit div r * r \<and> n mod r = k - 1"])
        (use lim le in auto)
    also have "\<dots> = nat (limit div r)"
      by (rule residue_class_card[OF r0 j])
    finally show ?thesis .
  qed
  have range: "1 \<le> v \<and> v \<le> r" if "randIntInclusive 1 r ds = Returns (v, rest)" for v rest
    using rejection_loop_range[of 1 r limit ds v rest] that assms by (simp add: unfold)
  have returns: "\<exists>v rest. randIntInclusive 1 r ds = Returns (v, rest)"
    if "\<exists>y \<in> set ds. uint y < limit"
    using rejection_loop_returns[OF that] by (simp add: unfold)
  show ?thesis
    unfolding Let_def limit_def[symmetric]
    using dvd pos count range returns by (simp add: unfold)
qed

theorem rejection_sampling_has_no_modulo_bias_witness:
  "(6 :: int) dvd 4294967292
   \<and> randIntInclusive 1 6 [4294967293, 7] = Returns (2, [])
   \<and> card {y :: u32. uint y < 4294967292 \<and> 1 + uint y mod 6 = 3} = 715827882"
proof -
  have a: "(2 :: int) \<le> 6" and b: "(6 :: int) \<le> 1000" by simp_all
  note T = rejection_sampling_has_no_modulo_bias[OF a b, of 4294967293 "[7]" "[7]", unfolded Let_def]
  have lim: "(0xffffffff :: int) - 0xffffffff mod 6 = 4294967292" by simp
  from T have "\<forall>k \<in> {1..6::int}.
      card {y :: u32. uint y < 4294967292 \<and> 1 + uint y mod 6 = k} = nat (4294967292 div 6)"
    unfolding lim by blast
  then have c: "card {y :: u32. uint y < 4294967292 \<and> 1 + uint y mod 6 = 3} = nat (4294967292 div 6)"
    by (rule bspec) simp
  from T have "randIntInclusive 1 6 [4294967293, 7] =
      (if uint (4294967293 :: u32) < 4294967292 then Returns (1 + uint (4294967293 :: u32) mod 6, [7])
       else randIntInclusive 1 6 [7])"
    unfolding lim by blast
  then have d: "randIntInclusive 1 6 [4294967293, 7] = Returns (2, [])"
    by (simp add: randIntInclusive_def)
  show ?thesis using c d by simp
qed
section \<open>The profile message\<close>

text \<open>
  The lines of the profile message as the specification describes them: the line of the
  mode (one of two fixed texts, for \<open>mj\<close> and for \<open>joueur\<close>), the line of the universe and the
  line of the style, each only for a field that is given and is not empty once trimmed.
\<close>

definition mode_line_spec :: "string option \<Rightarrow> string list" where
  "mode_line_spec m =
     (case m of
        None \<Rightarrow> []
      | Some s \<Rightarrow>
          if trim s = ''mj'' then [mj_line]
          else if trim s = ''joueur'' then [joueur_line]
          else [])"

definition field_line_spec :: "string \<Rightarrow> string option \<Rightarrow> string list" where
  "field_line_spec label v =
     (case v of None \<Rightarrow> [] | Some s \<Rightarrow> if trim s = [] then [] else [label @ trim s])"

definition profile_lines_spec :: "CasusProfile \<Rightarrow> string list" where
  "profile_lines_spec c =
     mode_line_spec (mode c) @ field_line_spec ''Univers/ton: '' (univers c)
       @ field_line_spec ''Contraintes de style: '' (style c)"

text \<open>
  C9. \<open>buildCasusProfileSystemMessage\<close> returns \<open>null\<close> exactly when the profile is absent or
  none of its three fields yields a line; otherwise it returns one message, of role
  \<open>system\<close>, whose body is the heading followed by the lines of the fields that yield
  one, in the order mode, universe, style, one per line.
\<close>

theorem profile_message_lines:
  "buildCasusProfileSystemMessage casus =
     (case casus of
        None \<Rightarrow> None
      | Some c \<Rightarrow>
          if profile_lines_spec c = [] then None
          else Some \<lparr>role = System,
                     content = ''Contexte de partie:'' @ [LF] @ join [LF] (profile_lines_spec c)\<rparr>)
   \<and> (buildCasusProfileSystemMessage casus = None
        \<longleftrightarrow> (casus = None \<or> (\<exists>c. casus = Some c \<and> profile_lines_spec c = [])))"
proof (cases casus)
  case None
  then show ?thesis by (simp add: buildCasusProfileSystemMessage_def)
next
  case (Some c)
  have body: "buildCasusProfileSystemMessage (Some c) =
      (if profile_lines_spec c = [] then None
       else Some \<lparr>role = System,
                  content = ''Contexte de partie:'' @ [LF] @ join [LF] (profile_lines_spec c)\<rparr>)"
    by (cases "mode c"; cases "univers c"; cases "style c")
      (simp_all add: buildCasusProfileSystemMessage_def profile_lines_spec_def mode_line_spec_def
        field_line_spec_def Let_def)
  show ?thesis unfolding Some using body by simp
qed

theorem profile_message_lines_witness:
  "buildCasusProfileSystemMessage
     (Some \<lparr>mode = Some '' mj '', univers = Some ''  '', style = Some ''noir''\<rparr>)
   = Some \<lparr>role = System,
           content = ''Contexte de partie:'' @ [LF] @ mj_line @ [LF]
                       @ ''Contraintes de style: noir''\<rparr>
   \<and> buildCasusProfileSystemMessage (Some \<lparr>mode = Some ''MJ'', univers = None, style = Some []\<rparr>)
       = None"
proof -
  have l1: "profile_lines_spec \<lparr>mode = Some '' mj '', univers = Some ''  '', style = Some ''noir''\<rparr>
      = [mj_line, ''Contraintes de style: noir'']"
    by (simp add: profile_lines_spec_def mode_line_spec_def field_line_spec_def trim_def
        trimStart.simps trimEnd.simps ws_len_end_def ws1_def ws2_def ws3_def)
  have l2: "profile_lines_spec \<lparr>mode = Some ''MJ'', univers = None, style = Some []\<rparr> = []"
    by (simp add: profile_lines_spec_def mode_line_spec_def field_line_spec_def trim_def
        trimStart.simps trimEnd.simps ws_len_end_def ws1_def ws2_def ws3_def)
  show ?thesis
    using profile_message_lines[of
        "Some \<lparr>mode = Some '' mj '', univers = Some ''  '', style = Some ''noir''\<rparr>"]
      profile_message_lines[of "Some \<lparr>mode = Some ''MJ'', univers = None, style = Some []\<rparr>"]
    by (simp add: l1 l2)
qed

section \<open>The dice command\<close>

subsection \<open>Draws and rolls\<close>

text \<open>A draw that \<open>randIntInclusive\<close> accepts for a range of the given size.\<close>

definition accepted :: "int \<Rightarrow> u32 \<Rightarrow> bool" where
  "accepted rng x = (uint x < 0xffffffff - 0xffffffff mod rng)"

text \<open>A draw that is accepted whatever the number of faces, from 2 to 1000.\<close>

definition always_accepted :: "u32 \<Rightarrow> bool" where
  "always_accepted x = (uint x < 0xffffffff - 999)"

lemma always_accepted_accepted:
  assumes "always_accepted x" "1 \<le> faces" "faces \<le> 1000"
  shows "accepted faces x"
proof -
  have "(0xffffffff :: int) mod faces < faces" using assms(2) by simp
  then show ?thesis using assms unfolding accepted_def always_accepted_def by linarith
qed

lemma filter_always_accepted_le:
  assumes "1 \<le> faces" "faces \<le> 1000"
  shows "length (filter always_accepted draws) \<le> length (filter (accepted faces) draws)"
proof (induction draws)
  case Nil
  then show ?case by simp
next
  case (Cons x draws)
  then show ?case using always_accepted_accepted[OF _ assms, of x] by auto
qed

lemma rejection_loop_dropWhile:
  "rejection_loop lo rng limit draws =
     (case dropWhile (\<lambda>x. \<not> uint x < limit) draws of
        [] \<Rightarrow> Exhausted
      | x # rest \<Rightarrow> Returns (lo + uint x mod rng, rest))"
  by (induction draws) auto

lemma randIntInclusive_dropWhile:
  assumes "1 \<le> faces"
  shows "randIntInclusive 1 faces draws =
     (case dropWhile (\<lambda>x. \<not> accepted faces x) draws of
        [] \<Rightarrow> Exhausted
      | x # rest \<Rightarrow> Returns (1 + uint x mod faces, rest))"
  using assms by (simp add: randIntInclusive_def rejection_loop_dropWhile accepted_def Let_def)

lemma filter_dropWhile_not: "filter P (dropWhile (\<lambda>x. \<not> P x) xs) = filter P xs"
  by (induction xs) auto

lemma dropWhile_not_Cons:
  assumes "dropWhile (\<lambda>x. \<not> P x) xs = y # ys"
  shows "P y \<and> filter P xs = y # filter P ys"
proof -
  have "P y" using assms by (metis hd_dropWhile list.sel(1) list.distinct(1))
  moreover have "filter P xs = filter P (y # ys)"
    using filter_dropWhile_not[of P xs] assms by simp
  ultimately show ?thesis by simp
qed

lemma dropWhile_not_Nil:
  assumes "dropWhile (\<lambda>x. \<not> P x) xs = []"
  shows "filter P xs = []"
  using filter_dropWhile_not[of P xs] assms by simp

text \<open>The rolls of the loop: the first \<open>k\<close> accepted draws, each reduced to \<open>1..faces\<close>.\<close>

definition rolls_of :: "nat \<Rightarrow> int \<Rightarrow> u32 list \<Rightarrow> int list" where
  "rolls_of k faces draws =
     map (\<lambda>x. 1 + uint x mod faces) (take k (filter (accepted faces) draws))"

lemma roll_loop_rolls:
  assumes "1 \<le> faces"
  shows "(k \<le> length (filter (accepted faces) draws)
            \<longrightarrow> (\<exists>rest. roll_loop k faces draws = Returns (rolls_of k faces draws, rest)))
       \<and> (length (filter (accepted faces) draws) < k \<longrightarrow> roll_loop k faces draws = Exhausted)"
proof (induction k arbitrary: draws)
  case 0
  show ?case by (simp add: rolls_of_def)
next
  case (Suc k)
  show ?case
  proof (cases "dropWhile (\<lambda>x. \<not> accepted faces x) draws")
    case Nil
    have "randIntInclusive 1 faces draws = Exhausted"
      unfolding randIntInclusive_dropWhile[OF assms] Nil by simp
    then show ?thesis using dropWhile_not_Nil[OF Nil] by simp
  next
    case (Cons y ys)
    have f: "filter (accepted faces) draws = y # filter (accepted faces) ys"
      using dropWhile_not_Cons[OF Cons] by simp
    have r: "randIntInclusive 1 faces draws = Returns (1 + uint y mod faces, ys)"
      unfolding randIntInclusive_dropWhile[OF assms] Cons by simp
    show ?thesis
    proof (cases "k \<le> length (filter (accepted faces) ys)")
      case True
      with Suc.IH[of ys] obtain rest where
        "roll_loop k faces ys = Returns (rolls_of k faces ys, rest)" by auto
      then show ?thesis using True by (simp add: r f rolls_of_def)
    next
      case False
      with Suc.IH[of ys] have "roll_loop k faces ys = Exhausted" by simp
      then show ?thesis using False by (simp add: r f)
    qed
  qed
qed

lemma roll_loop_not_Throws:
  assumes "1 \<le> faces"
  shows "roll_loop k faces draws \<noteq> Throws"
  using roll_loop_rolls[OF assms, of k draws]
  by (cases "k \<le> length (filter (accepted faces) draws)") auto

lemma randIntInclusive_not_Throws:
  assumes "1 \<le> faces"
  shows "randIntInclusive 1 faces draws \<noteq> Throws"
  unfolding randIntInclusive_dropWhile[OF assms] by (simp split: list.split)

lemma rolls_of_length:
  "k \<le> length (filter (accepted faces) draws) \<Longrightarrow> length (rolls_of k faces draws) = k"
  by (simp add: rolls_of_def)

lemma rolls_of_range:
  assumes "1 \<le> faces" "v \<in> set (rolls_of k faces draws)"
  shows "1 \<le> v \<and> v \<le> faces"
proof -
  from assms(2) have "v \<in> (\<lambda>x. 1 + uint x mod faces) ` set (take k (filter (accepted faces) draws))"
    by (simp add: rolls_of_def)
  then obtain x :: u32 where "v = 1 + uint x mod faces" by blast
  moreover have "0 \<le> uint x mod faces" "uint x mod faces < faces" using assms(1) by simp_all
  ultimately show ?thesis by linarith
qed

subsection \<open>Sums that are exact\<close>

lemma round_double_exact: "\<bar>v\<bar> < 2 ^ 53 \<Longrightarrow> round_double v = Fin v"
proof -
  assume a: "\<bar>v\<bar> < 2 ^ 53"
  have "nat \<bar>v\<bar> < nat (2 ^ 53)" using a by (simp add: nat_less_iff)
  then have "nat \<bar>v\<bar> < 2 ^ 53" by simp
  then show ?thesis by (simp add: round_double_def Let_def)
qed

lemma foldl_js_add_exact:
  assumes "0 \<le> a" "\<forall>v \<in> set rolls. 0 \<le> v" "a + sum_list rolls < 2 ^ 53"
  shows "foldl (\<lambda>acc v. js_add acc (Fin v)) (Fin a) rolls = Fin (a + sum_list rolls)"
  using assms
proof (induction rolls arbitrary: a)
  case Nil
  then show ?case by simp
next
  case (Cons v rolls)
  have s: "0 \<le> sum_list rolls" using Cons.prems(2) by (simp add: sum_list_nonneg)
  have v: "0 \<le> v" using Cons.prems(2) by simp
  have "\<bar>a + v\<bar> < 2 ^ 53" using Cons.prems(1,3) s v by simp
  then have "js_add (Fin a) (Fin v) = Fin (a + v)" by (simp add: round_double_exact)
  moreover have "foldl (\<lambda>acc v. js_add acc (Fin v)) (Fin (a + v)) rolls
      = Fin (a + v + sum_list rolls)"
    using Cons.prems v by (intro Cons.IH) (simp_all add: add.assoc)
  ultimately show ?case by (simp add: add.assoc)
qed

lemma sum_rolls_exact:
  assumes "\<forall>v \<in> set rolls. 0 \<le> v" "sum_list rolls < 2 ^ 53"
  shows "sum_rolls rolls = Fin (sum_list rolls)"
  using foldl_js_add_exact[of 0 rolls] assms by (simp add: sum_rolls_def)

lemma sum_list_bound:
  fixes rolls :: "int list"
  assumes "\<forall>v \<in> set rolls. v \<le> m"
  shows "sum_list rolls \<le> int (length rolls) * m"
  using assms by (induction rolls) (auto simp: algebra_simps)

subsection \<open>The two ways of rolling\<close>

text \<open>
  What \<open>rollDiceCommand\<close> does once the expression has passed every check: the two draws
  of \<open>adv\<close>/\<open>dis\<close>, or the loop of \<open>n\<close> draws.
\<close>

definition roll_phase ::
  "(jsnum \<Rightarrow> string) \<Rightarrow> int \<Rightarrow> int \<Rightarrow> int \<Rightarrow> bool \<Rightarrow> bool \<Rightarrow> u32 list \<Rightarrow> string result" where
  "roll_phase str n faces md wantAdv wantDis draws =
     (if wantAdv \<or> wantDis then
        (case randIntInclusive 1 20 draws of
           Returns (a, draws1) \<Rightarrow>
             (case randIntInclusive 1 20 draws1 of
                Returns (b, draws2) \<Rightarrow>
                  (let kept = (if wantAdv then max a b else min a b);
                       total = js_add (Fin kept) (Fin md)
                   in Returns (advdis_report str wantAdv a b kept md total))
              | Throws \<Rightarrow> Throws
              | Exhausted \<Rightarrow> Exhausted)
         | Throws \<Rightarrow> Throws
         | Exhausted \<Rightarrow> Exhausted)
      else
        (case roll_loop (nat n) faces draws of
           Returns (rolls, draws1) \<Rightarrow>
             (let sm = sum_rolls rolls;
                  total = js_add sm (Fin md)
              in Returns (roll_report str n faces md rolls total))
         | Throws \<Rightarrow> Throws
         | Exhausted \<Rightarrow> Exhausted))"

lemma rollDiceCommand_cascade:
  "rollDiceCommand str input draws =
     (let rest = trim (strip_roll input) in
      if rest = [] then Returns usage_msg
      else
        (case split_ws rest of
           [] \<Rightarrow> Throws
         | expr # others \<Rightarrow>
             (case match_dice expr of
                None \<Rightarrow> Returns format_msg
              | Some (m1, m2, m3) \<Rightarrow>
                  (case all_finite (if m1 \<noteq> [] then Number_of m1 else Fin 1) (Number_of m2)
                          (case m3 of Some s \<Rightarrow> Number_of s | None \<Rightarrow> Fin 0) of
                     None \<Rightarrow> Returns invalid_msg
                   | Some (n, faces, md) \<Rightarrow>
                       if n < 1 \<or> n > 50 then Returns count_msg
                       else if faces < 2 \<or> faces > 1000 then Returns faces_msg
                       else if (test_word ''adv'' (toLowerCase (join '' '' others))
                                \<or> test_word ''dis'' (toLowerCase (join '' '' others)))
                               \<and> \<not> (n = 1 \<and> faces = 20)
                       then Returns unsupported_msg
                       else roll_phase str n faces md
                              (test_word ''adv'' (toLowerCase (join '' '' others)))
                              (test_word ''dis'' (toLowerCase (join '' '' others))) draws))))"
  unfolding rollDiceCommand_def roll_phase_def Let_def
  by (simp split: list.split option.split prod.split)

lemma all_finite_Fin [simp]: "all_finite (Fin n) (Fin f) (Fin m) = Some (n, f, m)"
  by (simp add: all_finite_def)

lemma split_ws_from_not_Nil: "split_ws_from cur s \<noteq> []"
proof (induction cur s rule: split_ws_from.induct)
  case (1 cur s)
  show ?case
  proof (cases s)
    case Nil
    then show ?thesis by (simp add: split_ws_from.simps)
  next
    case (Cons x xs)
    show ?thesis
    proof (cases "ws_len s \<noteq> 0")
      case True
      then show ?thesis using Cons by (subst split_ws_from.simps) simp
    next
      case False
      then show ?thesis using Cons 1(2)[OF Cons] by (subst split_ws_from.simps) simp
    qed
  qed
qed

lemma split_ws_not_Nil: "split_ws s \<noteq> []"
  by (simp add: split_ws_def split_ws_from_not_Nil)

text \<open>The six fixed messages of the rejection policy.\<close>

definition policy_msgs :: "string list" where
  "policy_msgs = [usage_msg, format_msg, invalid_msg, count_msg, faces_msg, unsupported_msg]"

lemma policy_msgs_distinct: "distinct policy_msgs"
  by (simp add: policy_msgs_def usage_msg_def format_msg_def invalid_msg_def count_msg_def
      faces_msg_def unsupported_msg_def)

lemma policy_msgs_hd: "m \<in> set policy_msgs \<Longrightarrow> m \<noteq> [] \<and> hd m \<noteq> CHR 0xF0"
  by (auto simp: policy_msgs_def usage_msg_def format_msg_def invalid_msg_def count_msg_def
      faces_msg_def unsupported_msg_def)

lemma roll_report_hd:
  "roll_report str n faces md rolls tot \<noteq> [] \<and> hd (roll_report str n faces md rolls tot) = CHR 0xF0"
  by (simp add: roll_report_def dice_emoji_def)

lemma advdis_report_hd:
  "advdis_report str w a b kept md tot \<noteq> []
   \<and> hd (advdis_report str w a b kept md tot) = CHR 0xF0"
  by (simp add: advdis_report_def dice_emoji_def)

lemma roll_phase_normal:
  assumes "1 \<le> faces" "\<not> wantAdv" "\<not> wantDis"
  shows "roll_phase str n faces md wantAdv wantDis draws =
     (if nat n \<le> length (filter (accepted faces) draws)
      then Returns (roll_report str n faces md (rolls_of (nat n) faces draws)
                     (js_add (sum_rolls (rolls_of (nat n) faces draws)) (Fin md)))
      else Exhausted)"
proof (cases "nat n \<le> length (filter (accepted faces) draws)")
  case True
  with roll_loop_rolls[OF assms(1), of "nat n" draws] obtain rest where
    "roll_loop (nat n) faces draws = Returns (rolls_of (nat n) faces draws, rest)" by auto
  then show ?thesis using True assms by (simp add: roll_phase_def Let_def)
next
  case False
  with roll_loop_rolls[OF assms(1), of "nat n" draws]
  have "roll_loop (nat n) faces draws = Exhausted" by simp
  then show ?thesis using False assms by (simp add: roll_phase_def)
qed

lemma roll_phase_advdis:
  assumes "wantAdv \<or> wantDis"
  shows "roll_phase str n faces md wantAdv wantDis draws =
     (case filter (accepted 20) draws of
        x1 # x2 # more_draws \<Rightarrow>
          (let a = 1 + uint x1 mod 20; b = 1 + uint x2 mod 20;
               kept = (if wantAdv then max a b else min a b)
           in Returns (advdis_report str wantAdv a b kept md (js_add (Fin kept) (Fin md))))
      | _ \<Rightarrow> Exhausted)"
proof (cases "dropWhile (\<lambda>x. \<not> accepted 20 x) draws")
  case Nil
  have "randIntInclusive 1 20 draws = Exhausted"
    unfolding randIntInclusive_dropWhile[of 20, simplified] Nil by simp
  then show ?thesis using dropWhile_not_Nil[OF Nil] assms by (simp add: roll_phase_def)
next
  case (Cons y ys)
  have f: "filter (accepted 20) draws = y # filter (accepted 20) ys"
    using dropWhile_not_Cons[OF Cons] by simp
  have r: "randIntInclusive 1 20 draws = Returns (1 + uint y mod 20, ys)"
    unfolding randIntInclusive_dropWhile[of 20, simplified] Cons by simp
  show ?thesis
  proof (cases "dropWhile (\<lambda>x. \<not> accepted 20 x) ys")
    case Nil
    have "randIntInclusive 1 20 ys = Exhausted"
      unfolding randIntInclusive_dropWhile[of 20, simplified] Nil by simp
    then show ?thesis using dropWhile_not_Nil[OF Nil] assms by (simp add: roll_phase_def r f)
  next
    case (Cons z zs)
    have f2: "filter (accepted 20) ys = z # filter (accepted 20) zs"
      using dropWhile_not_Cons[OF Cons] by simp
    have r2: "randIntInclusive 1 20 ys = Returns (1 + uint z mod 20, zs)"
      unfolding randIntInclusive_dropWhile[of 20, simplified] Cons by simp
    show ?thesis using assms by (simp add: roll_phase_def r r2 f f2 Let_def)
  qed
qed

lemma roll_phase_total:
  assumes "1 \<le> n" "n \<le> 50" "2 \<le> faces" "faces \<le> 1000"
    and "(wantAdv \<or> wantDis) \<longrightarrow> faces = 20"
  shows "roll_phase str n faces md wantAdv wantDis draws = Exhausted
         \<or> (\<exists>report. roll_phase str n faces md wantAdv wantDis draws = Returns report
               \<and> report \<noteq> [] \<and> hd report = CHR 0xF0)"
    and "50 \<le> length (filter always_accepted draws)
         \<Longrightarrow> \<exists>report. roll_phase str n faces md wantAdv wantDis draws = Returns report"
proof -
  have f1: "1 \<le> faces" using assms(3) by simp
  have len: "length (filter always_accepted draws) \<le> length (filter (accepted faces) draws)"
    by (rule filter_always_accepted_le[OF f1 assms(4)])
  show "roll_phase str n faces md wantAdv wantDis draws = Exhausted
         \<or> (\<exists>report. roll_phase str n faces md wantAdv wantDis draws = Returns report
               \<and> report \<noteq> [] \<and> hd report = CHR 0xF0)"
  proof (cases "wantAdv \<or> wantDis")
    case True
    show ?thesis
      unfolding roll_phase_advdis[OF True]
      by (simp add: advdis_report_hd Let_def split: list.split)
  next
    case False
    then show ?thesis
      using roll_phase_normal[OF f1, of wantAdv wantDis str n md draws]
      by (simp add: roll_report_hd)
  qed
  assume enough: "50 \<le> length (filter always_accepted draws)"
  show "\<exists>report. roll_phase str n faces md wantAdv wantDis draws = Returns report"
  proof (cases "wantAdv \<or> wantDis")
    case True
    then have "faces = 20" using assms(5) by simp
    then have "50 \<le> length (filter (accepted 20) draws)" using enough len by simp
    then obtain x1 x2 more_draws where "filter (accepted 20) draws = x1 # x2 # more_draws"
      by (cases "filter (accepted 20) draws"; cases "tl (filter (accepted 20) draws)") auto
    then show ?thesis unfolding roll_phase_advdis[OF True] by (simp add: Let_def)
  next
    case False
    have "nat n \<le> length (filter (accepted faces) draws)" using enough len assms(2) by simp
    then show ?thesis
      using False roll_phase_normal[OF f1, of wantAdv wantDis str n md draws] by simp
  qed
qed

subsection \<open>Reading a command written in digits\<close>

text \<open>A character that is not white space and starts no white-space character.\<close>

definition plain_char :: "char \<Rightarrow> bool" where
  "plain_char c = ((of_char c :: nat) < 0x80 \<and> \<not> ws1 c)"

lemma plain_char_ws_len: "plain_char c \<Longrightarrow> ws_len (c # s) = 0"
proof -
  assume p: "plain_char c"
  then have a: "\<not> ws1 c" and b: "(of_char c :: nat) < 0x80" by (simp_all add: plain_char_def)
  have c2: "\<And>x. \<not> ws2 c x" using b by (auto simp: ws2_def)
  have c3: "\<And>x y. \<not> ws3 c x y" using b by (auto simp: ws3_def)
  show ?thesis
  proof (cases s)
    case Nil
    then show ?thesis using a by simp
  next
    case (Cons x xs)
    then show ?thesis using a c2 c3 by (cases xs) simp_all
  qed
qed

lemma plain_char_ws_len_end: "plain_char c \<Longrightarrow> ws_len_end (s @ [c]) = 0"
proof -
  assume p: "plain_char c"
  then have a: "\<not> ws1 c" and b: "(of_char c :: nat) < 0x80" by (simp_all add: plain_char_def)
  have c2: "\<And>x. \<not> ws2 x c" using b by (auto simp: ws2_def)
  have c3: "\<And>x y. \<not> ws3 x y c" using b by (auto simp: ws3_def)
  show ?thesis
    using a c2 c3 by (simp add: ws_len_end_def split: list.split)
qed

lemma trimStart_plain: "plain_char c \<Longrightarrow> trimStart (c # s) = c # s"
  by (subst trimStart.simps) (simp add: plain_char_ws_len)

lemma trimStart_space: "trimStart (CHR '' '' # s) = trimStart s"
proof -
  have "ws_len (CHR '' '' # s) = 1"
    by (cases s; cases "tl s") (simp_all add: ws1_def)
  then show ?thesis by (subst trimStart.simps) simp
qed

lemma trimEnd_plain: "plain_char c \<Longrightarrow> trimEnd (s @ [c]) = s @ [c]"
  by (subst trimEnd.simps) (simp add: plain_char_ws_len_end)

lemma trim_space_plain:
  assumes "e \<noteq> []" "plain_char (hd e)" "plain_char (last e)"
  shows "trim (CHR '' '' # e) = e"
proof -
  obtain c s where e: "e = c # s" using assms(1) by (cases e) auto
  have "trimStart (CHR '' '' # e) = e"
    using assms(2) by (simp add: trimStart_space e trimStart_plain)
  moreover have "trimEnd e = e"
    using trimEnd_plain[OF assms(3), of "butlast e"] assms(1) by simp
  ultimately show ?thesis by (simp add: trim_def)
qed

lemma split_ws_from_plain:
  assumes "\<forall>c \<in> set s. plain_char c"
  shows "split_ws_from cur (s @ t) = split_ws_from (cur @ s) t"
  using assms
proof (induction s arbitrary: cur)
  case Nil
  then show ?case by simp
next
  case (Cons c s)
  have "ws_len ((c # s) @ t) = 0" using Cons.prems by (simp add: plain_char_ws_len)
  then have "split_ws_from cur ((c # s) @ t) = split_ws_from (cur @ [c]) (s @ t)"
    by (subst split_ws_from.simps) simp
  also have "\<dots> = split_ws_from ((cur @ [c]) @ s) t" using Cons by simp
  finally show ?case by simp
qed

lemma split_ws_plain:
  assumes "\<forall>c \<in> set s. plain_char c"
  shows "split_ws s = [s]"
  using split_ws_from_plain[OF assms, of "[]" "[]"]
  by (simp add: split_ws_def split_ws_from.simps)

lemma split_ws_plain_word:
  assumes "\<forall>c \<in> set s. plain_char c" "\<forall>c \<in> set w. plain_char c" "w \<noteq> []"
  shows "split_ws (s @ CHR '' '' # w) = [s, w]"
proof -
  obtain c w' where w: "w = c # w'" using assms(3) by (cases w) auto
  have "split_ws (s @ CHR '' '' # w) = split_ws_from s (CHR '' '' # w)"
    using split_ws_from_plain[OF assms(1), of "[]"] by (simp add: split_ws_def)
  also have "\<dots> = s # split_ws_from [] (trimStart (CHR '' '' # w))"
  proof -
    have "ws_len (CHR '' '' # w) \<noteq> 0" by (cases w; cases "tl w") (simp_all add: ws1_def)
    then show ?thesis by (subst split_ws_from.simps) simp
  qed
  also have "trimStart (CHR '' '' # w) = w"
    using assms(2) by (simp add: trimStart_space w trimStart_plain)
  also have "split_ws_from [] w = [w]"
    using split_ws_plain[OF assms(2)] by (simp add: split_ws_def)
  finally show ?thesis .
qed

lemma digit_plain: "is_digit c \<Longrightarrow> plain_char c"
  by (auto simp: is_digit_def plain_char_def ws1_def)

text \<open>
  A command written out: the digits of the count (none for one die), \<open>d\<close>, the digits of the
  number of faces, and the modifier, which is nothing or a sign and digits.
\<close>

definition dice_expr :: "string \<Rightarrow> string \<Rightarrow> string \<Rightarrow> string" where
  "dice_expr dn dm km = dn @ ''d'' @ dm @ km"

definition digits :: "string \<Rightarrow> bool" where
  "digits ds = list_all is_digit ds"

definition modifier_text :: "string \<Rightarrow> bool" where
  "modifier_text km =
     (case km of
        [] \<Rightarrow> True
      | sg # dk \<Rightarrow> (sg = CHR ''+'' \<or> sg = CHR ''-'') \<and> dk \<noteq> [] \<and> digits dk)"

definition count_value :: "string \<Rightarrow> int" where
  "count_value dn = (if dn = [] then 1 else int (dec_value dn))"

definition modifier_value :: "string \<Rightarrow> int" where
  "modifier_value km =
     (case km of
        [] \<Rightarrow> 0
      | sg # dk \<Rightarrow> if sg = CHR ''-'' then - int (dec_value dk) else int (dec_value dk))"

lemma dice_expr_plain:
  assumes "digits dn" "digits dm" "modifier_text km"
  shows "\<forall>c \<in> set (dice_expr dn dm km). plain_char c"
proof -
  have a: "\<forall>c \<in> set dn. plain_char c" "\<forall>c \<in> set dm. plain_char c"
    using assms(1,2) by (auto simp: digits_def list_all_iff digit_plain)
  have b: "\<forall>c \<in> set km. plain_char c"
  proof (cases km)
    case Nil
    then show ?thesis by simp
  next
    case (Cons sg dk)
    then have sg: "sg = CHR ''+'' \<or> sg = CHR ''-''" and dk: "digits dk"
      using assms(3) by (simp_all add: modifier_text_def)
    have "plain_char sg" using sg by (auto simp: plain_char_def ws1_def)
    moreover have "\<forall>c \<in> set dk. plain_char c"
      using dk by (auto simp: digits_def list_all_iff digit_plain)
    ultimately show ?thesis using Cons by simp
  qed
  have "plain_char (CHR ''d'')" by (simp add: plain_char_def ws1_def)
  then show ?thesis using a b by (auto simp: dice_expr_def)
qed

lemma match_dice_expr:
  assumes "digits dn" "digits dm" "dm \<noteq> []" "modifier_text km"
  shows "match_dice (dice_expr dn dm km) = Some (dn, dm, if km = [] then None else Some km)"
proof -
  have dn: "\<And>x. x \<in> set dn \<Longrightarrow> is_digit x" and dm: "\<And>x. x \<in> set dm \<Longrightarrow> is_digit x"
    using assms(1,2) by (auto simp: digits_def list_all_iff)
  have nd: "\<not> is_digit (CHR ''d'')" by (simp add: is_digit_def)
  have t1: "takeWhile is_digit (dice_expr dn dm km) = dn"
    using dn nd by (simp add: dice_expr_def takeWhile_append2)
  have d1: "dropWhile is_digit (dice_expr dn dm km) = CHR ''d'' # dm @ km"
    using dn nd by (simp add: dice_expr_def dropWhile_append2)
  show ?thesis
  proof (cases km)
    case Nil
    have tw: "takeWhile is_digit dm = dm" "dropWhile is_digit dm = []"
      using dm by simp_all
    show ?thesis unfolding match_dice_def t1 d1 using assms(3) Nil by (simp add: Let_def tw)
  next
    case (Cons sg dk)
    then have sg: "sg = CHR ''+'' \<or> sg = CHR ''-''" and dk: "dk \<noteq> []" "list_all is_digit dk"
      using assms(4) by (simp_all add: modifier_text_def digits_def)
    have ns: "\<not> is_digit sg" using sg by (auto simp: is_digit_def)
    have tw: "takeWhile is_digit (dm @ sg # dk) = dm" "dropWhile is_digit (dm @ sg # dk) = sg # dk"
      using dm ns by (simp_all add: takeWhile_append2 dropWhile_append2)
    show ?thesis unfolding match_dice_def t1 d1 using assms(3) Cons sg dk
      by (auto simp: Let_def tw)
  qed
qed

lemma Number_of_digits:
  assumes "digits ds" "ds \<noteq> []" "int (dec_value ds) < 2 ^ 53"
  shows "Number_of ds = Fin (int (dec_value ds))"
proof -
  obtain c r where ds: "ds = c # r" using assms(2) by (cases ds) auto
  have "is_digit c" using assms(1) ds by (simp add: digits_def)
  then have "c \<noteq> CHR ''-''" "c \<noteq> CHR ''+''" by (auto simp: is_digit_def)
  moreover have "round_double (int (dec_value ds)) = Fin (int (dec_value ds))"
    using assms(3) by (intro round_double_exact) simp
  ultimately show ?thesis by (simp add: Number_of_def ds)
qed

lemma Number_of_modifier:
  assumes "modifier_text km" "km \<noteq> []" "\<bar>modifier_value km\<bar> < 2 ^ 53"
  shows "Number_of km = Fin (modifier_value km)"
proof -
  obtain sg dk where km: "km = sg # dk" using assms(2) by (cases km) auto
  then have sg: "sg = CHR ''+'' \<or> sg = CHR ''-''" using assms(1) by (simp add: modifier_text_def)
  show ?thesis
    using sg assms(3) round_double_exact[of "modifier_value km"]
    by (auto simp: Number_of_def km modifier_value_def)
qed

text \<open>How \<open>rollDiceCommand\<close> reads a command written in digits, with or without a mode word.\<close>

lemma roll_written_parse:
  assumes "digits dn" "digits dm" "dm \<noteq> []" "modifier_text km"
  shows "trim (strip_roll (''/roll '' @ dice_expr dn dm km)) = dice_expr dn dm km"
    and "split_ws (dice_expr dn dm km) = [dice_expr dn dm km]"
    and "dice_expr dn dm km \<noteq> []"
proof -
  let ?e = "dice_expr dn dm km"
  have pl: "\<forall>c \<in> set ?e. plain_char c" by (rule dice_expr_plain[OF assms(1,2,4)])
  show ne: "?e \<noteq> []" by (simp add: dice_expr_def)
  have "strip_roll (''/roll '' @ ?e) = CHR '' '' # ?e" by (simp add: strip_roll_def lower_ascii_def)
  moreover have "trim (CHR '' '' # ?e) = ?e"
    using pl ne by (intro trim_space_plain) simp_all
  ultimately show "trim (strip_roll (''/roll '' @ ?e)) = ?e" by simp
  show "split_ws ?e = [?e]" by (rule split_ws_plain[OF pl])
qed

lemma roll_written_parse_word:
  assumes "digits dn" "digits dm" "dm \<noteq> []" "modifier_text km"
    and "\<forall>c \<in> set w. plain_char c" "w \<noteq> []"
  shows "trim (strip_roll (''/roll '' @ dice_expr dn dm km @ '' '' @ w))
           = dice_expr dn dm km @ '' '' @ w"
    and "split_ws (dice_expr dn dm km @ '' '' @ w) = [dice_expr dn dm km, w]"
proof -
  let ?e = "dice_expr dn dm km"
  have pl: "\<forall>c \<in> set ?e. plain_char c" by (rule dice_expr_plain[OF assms(1,2,4)])
  have ne: "?e \<noteq> []" by (simp add: dice_expr_def)
  have "strip_roll (''/roll '' @ ?e @ '' '' @ w) = CHR '' '' # ?e @ '' '' @ w"
    by (simp add: strip_roll_def lower_ascii_def)
  moreover have "trim (CHR '' '' # (?e @ '' '' @ w)) = ?e @ '' '' @ w"
    using pl ne assms(5,6) by (intro trim_space_plain) (simp_all add: hd_append)
  ultimately show "trim (strip_roll (''/roll '' @ ?e @ '' '' @ w)) = ?e @ '' '' @ w" by simp
  show "split_ws (?e @ '' '' @ w) = [?e, w]"
    using split_ws_plain_word[OF pl assms(5,6)] by simp
qed

subsection \<open>The total of a roll\<close>

lemma test_word_empty: "\<not> test_word w []"
  by (simp add: test_word_def)

lemma count_value_Number:
  assumes "digits dn" "count_value dn \<le> 50"
  shows "(if dn \<noteq> [] then Number_of dn else Fin 1) = Fin (count_value dn)"
proof (cases "dn = []")
  case True
  then show ?thesis by (simp add: count_value_def)
next
  case False
  have "int (dec_value dn) < 2 ^ 53" using assms(2) False by (simp add: count_value_def)
  then show ?thesis using False Number_of_digits[OF assms(1) False] by (simp add: count_value_def)
qed

lemma modifier_value_Number:
  assumes "modifier_text km" "\<bar>modifier_value km\<bar> < 2 ^ 53"
  shows "(case (if km = [] then None else Some km) of Some s \<Rightarrow> Number_of s | None \<Rightarrow> Fin 0)
           = Fin (modifier_value km)"
proof (cases "km = []")
  case True
  then show ?thesis by (simp add: modifier_value_def)
next
  case False
  then show ?thesis using Number_of_modifier[OF assms(1) False assms(2)] by simp
qed

text \<open>
  C2, as the code has it. A command \<open>/roll NdM+K\<close> written in digits, with \<open>N\<close> from 1 to 50
  (or left out, for one die), \<open>M\<close> from 2 to 1000, no \<open>adv\<close>/\<open>dis\<close>, and a modifier \<open>K\<close> for
  which \<open>|K| + N * M\<close> is below \<open>2^53\<close>, so that every number involved is an exact double:
  once the draws hold \<open>N\<close> accepted ones, the interpreter returns its report on exactly \<open>N\<close>
  rolls, the first \<open>N\<close> accepted draws reduced to \<open>1..M\<close>, and the total it reports is the
  sum of these rolls plus \<open>K\<close>.
\<close>

theorem roll_total_is_sum_plus_modifier:
  assumes "digits dn" and "digits dm" and "dm \<noteq> []" and "modifier_text km"
    and "1 \<le> count_value dn" and "count_value dn \<le> 50"
    and "2 \<le> int (dec_value dm)" and "int (dec_value dm) \<le> 1000"
    and "\<bar>modifier_value km\<bar> + count_value dn * int (dec_value dm) < 2 ^ 53"
    and "nat (count_value dn) \<le> length (filter (accepted (int (dec_value dm))) draws)"
  shows
    "(let N = count_value dn; M = int (dec_value dm); K = modifier_value km;
          rolls = rolls_of (nat N) M draws
      in rollDiceCommand str (''/roll '' @ dn @ ''d'' @ dm @ km) draws
           = Returns (roll_report str N M K rolls (Fin (sum_list rolls + K)))
         \<and> length rolls = nat N
         \<and> (\<forall>v \<in> set rolls. 1 \<le> v \<and> v \<le> M))"
proof -
  define N where "N = count_value dn"
  define M where "M = int (dec_value dm)"
  define K where "K = modifier_value km"
  define rolls where "rolls = rolls_of (nat N) M draws"
  have M1: "1 \<le> M" using assms(7) by (simp add: M_def)
  have len: "length rolls = nat N"
    using assms(10) by (simp add: rolls_def N_def M_def rolls_of_length)
  have rng: "\<forall>v \<in> set rolls. 1 \<le> v \<and> v \<le> M"
    using rolls_of_range[OF M1] by (auto simp: rolls_def)
  have NM: "0 \<le> N * M" using assms(5) M1 by (simp add: N_def)
  have sum_le: "sum_list rolls \<le> N * M"
    using sum_list_bound[of rolls M] rng len assms(5) by (simp add: N_def)
  have sum_ge: "0 \<le> sum_list rolls" using rng by (intro sum_list_nonneg) auto
  have bound: "\<bar>K\<bar> + N * M < 2 ^ 53" using assms(9) by (simp add: K_def N_def M_def)
  have "sum_list rolls < 2 ^ 53" using sum_le bound by linarith
  then have sr: "sum_rolls rolls = Fin (sum_list rolls)"
    using rng by (intro sum_rolls_exact) auto
  have "\<bar>sum_list rolls + K\<bar> < 2 ^ 53" using sum_le sum_ge bound by linarith
  then have tot: "js_add (sum_rolls rolls) (Fin K) = Fin (sum_list rolls + K)"
    by (simp add: sr round_double_exact)
  have e: "''/roll '' @ dn @ ''d'' @ dm @ km = ''/roll '' @ dice_expr dn dm km"
    by (simp add: dice_expr_def)
  note p = roll_written_parse[OF assms(1-4)]
  have n: "(if dn \<noteq> [] then Number_of dn else Fin 1) = Fin N"
    unfolding N_def by (rule count_value_Number[OF assms(1,6)])
  have "int (dec_value dm) < 2 ^ 53" using assms(8) by simp
  then have f: "Number_of dm = Fin M"
    unfolding M_def by (rule Number_of_digits[OF assms(2,3)])
  have "\<bar>K\<bar> < 2 ^ 53" using bound NM by linarith
  then have k: "(case (if km = [] then None else Some km) of
                   Some s \<Rightarrow> Number_of s | None \<Rightarrow> Fin 0) = Fin K"
    unfolding K_def by (rule modifier_value_Number[OF assms(4)])
  have ph: "roll_phase str N M K False False draws
      = Returns (roll_report str N M K rolls (js_add (sum_rolls rolls) (Fin K)))"
    using roll_phase_normal[OF M1, of False False str N K draws] assms(10)
    by (simp add: rolls_def N_def M_def)
  have "rollDiceCommand str (''/roll '' @ dice_expr dn dm km) draws
      = roll_phase str N M K False False draws"
    unfolding rollDiceCommand_cascade Let_def p(1)
    using p(3) assms(5,6,7,8)
    by (simp add: p(2) match_dice_expr[OF assms(1-4)] n f k test_word_empty N_def[symmetric]
        M_def[symmetric])
  then have R: "rollDiceCommand str (''/roll '' @ dice_expr dn dm km) draws
      = Returns (roll_report str N M K rolls (Fin (sum_list rolls + K)))"
    by (simp only: ph tot)
  have "rollDiceCommand str (''/roll '' @ dn @ ''d'' @ dm @ km) draws
      = Returns (roll_report str N M K rolls (Fin (sum_list rolls + K)))"
    unfolding e by (rule R)
  then show ?thesis
    unfolding Let_def N_def[symmetric] M_def[symmetric] K_def[symmetric] rolls_def[symmetric]
    using len rng by simp
qed


lemmas str_eval = trim_def trimStart.simps trimEnd.simps ws_len_end_def ws1_def ws2_def ws3_def
  lower_ascii_def split_ws_def split_ws_from.simps is_digit_def word_char_def test_word_def
  strip_roll_def match_dice_def includes_str_def

lemmas num_eval = round_double_def bit_length.simps Number_of_def dec_value_def digit_val_def
  decimal_def digits_of.simps Let_def

lemmas roll_eval = rollDiceCommand_def randIntInclusive_def usage_msg_def format_msg_def
  invalid_msg_def count_msg_def faces_msg_def unsupported_msg_def dice_emoji_def modStr_of_def
  mod_suffix_def sum_rolls_def roll_report_def advdis_report_def

theorem roll_total_is_sum_plus_modifier_witness:
  "rollDiceCommand decimal ''/roll 2d6+1'' [5, 0xfffffffe, 7]
     = Returns (roll_report decimal 2 6 1 [6, 2] (Fin 9))
   \<and> roll_report decimal 2 6 1 [6, 2] (Fin 9)
     = dice_emoji @ '' /roll 2d6+1'' @ [LF] @ ''Jets: 6, 2 (+1)'' @ [LF] @ ''Total: 9''"
proof -
  have a: "digits ''2''" "digits ''6''" "''6'' \<noteq> []" "modifier_text ''+1''"
    by (simp_all add: digits_def is_digit_def modifier_text_def)
  have v: "count_value ''2'' = 2" "int (dec_value ''6'') = 6" "modifier_value ''+1'' = 1"
    by (simp_all add: count_value_def dec_value_def digit_val_def modifier_value_def)
  have r: "rolls_of 2 6 [5, 0xfffffffe, 7] = [6, 2]"
    by (simp add: rolls_of_def accepted_def)
  have "rollDiceCommand decimal (''/roll '' @ ''2'' @ ''d'' @ ''6'' @ ''+1'') [5, 0xfffffffe, 7]
      = Returns (roll_report decimal 2 6 1 [6, 2] (Fin 9))"
    using roll_total_is_sum_plus_modifier[OF a, of "[5, 0xfffffffe, 7]" decimal]
    by (simp add: v r Let_def accepted_def)
  moreover have "roll_report decimal 2 6 1 [6, 2] (Fin 9)
     = dice_emoji @ '' /roll 2d6+1'' @ [LF] @ ''Jets: 6, 2 (+1)'' @ [LF] @ ''Total: 9''"
    by (simp add: roll_report_def modStr_of_def mod_suffix_def decimal_def digits_of.simps)
  ultimately show ?thesis by simp
qed

text \<open>
  C2, as the specification states it, fails for a modifier that is beyond the exact
  integers of a double: \<open>/roll 1d2+9007199254740992\<close> with a roll of 1 reports the total
  9007199254740992, not 9007199254740993.
\<close>

theorem roll_total_rounded_counterexample:
  "rollDiceCommand decimal ''/roll 1d2+9007199254740992'' [0]
     = Returns (dice_emoji @ '' /roll 1d2+9007199254740992'' @ [LF]
                @ ''Jets: 1 (+9007199254740992)'' @ [LF] @ ''Total: 9007199254740992'')
   \<and> sum_list [1 :: int] + 9007199254740992 \<noteq> 9007199254740992"
  by (simp add: str_eval num_eval roll_eval)
subsection \<open>Advantage and disadvantage\<close>

lemma mode_word_tests:
  "toLowerCase (join '' '' [''adv'']) = ''adv''"
  "toLowerCase (join '' '' [''dis'']) = ''dis''"
  "test_word ''adv'' ''adv''" "\<not> test_word ''dis'' ''adv''"
  "test_word ''dis'' ''dis''" "\<not> test_word ''adv'' ''dis''"
  by (simp_all add: lower_ascii_def test_word_def word_char_def)

text \<open>
  C6, as the code has it. For \<open>/roll 1d20 adv\<close> and \<open>/roll 1d20 dis\<close>, with or without a
  modifier \<open>K\<close> written in digits and of absolute value below \<open>2^53 - 20\<close>: once the draws
  hold two accepted ones, the interpreter reports the two values \<open>a\<close> and \<open>b\<close> they reduce
  to, both from 1 to 20, keeps \<open>max(a, b)\<close> for \<open>adv\<close> and \<open>min(a, b)\<close> for \<open>dis\<close>, and reports
  the total kept value plus \<open>K\<close>.
\<close>

theorem advantage_keeps_max_disadvantage_min:
  assumes "modifier_text km" and "\<bar>modifier_value km\<bar> + 20 < 2 ^ 53"
    and "filter (accepted 20) draws = x1 # x2 # more_draws"
    and "w = ''adv'' \<or> w = ''dis''"
  shows
    "(let K = modifier_value km; a = 1 + uint x1 mod 20; b = 1 + uint x2 mod 20;
          kept = (if w = ''adv'' then max a b else min a b)
      in rollDiceCommand str (''/roll 1d20'' @ km @ '' '' @ w) draws
           = Returns (advdis_report str (w = ''adv'') a b kept K (Fin (kept + K)))
         \<and> 1 \<le> a \<and> a \<le> 20 \<and> 1 \<le> b \<and> b \<le> 20)"
proof -
  define K where "K = modifier_value km"
  define a where "a = 1 + uint x1 mod 20"
  define b where "b = 1 + uint x2 mod 20"
  define kept where "kept = (if w = ''adv'' then max a b else min a b)"
  have ra: "1 \<le> a \<and> a \<le> 20" and rb: "1 \<le> b \<and> b \<le> 20"
    unfolding a_def b_def by (simp_all add: zle_add1_eq_le)
  have rk: "1 \<le> kept \<and> kept \<le> 20" using ra rb by (auto simp: kept_def)
  have d: "digits ''1''" "digits ''20''" "''20'' \<noteq> []"
    by (simp_all add: digits_def is_digit_def)
  have pw: "\<forall>c \<in> set w. plain_char c" "w \<noteq> []"
    using assms(4) by (auto simp: plain_char_def ws1_def)
  have e: "''/roll 1d20'' @ km @ '' '' @ w = ''/roll '' @ dice_expr ''1'' ''20'' km @ '' '' @ w"
    by (simp add: dice_expr_def)
  note p = roll_written_parse_word[OF d assms(1) pw]
  have ne: "dice_expr ''1'' ''20'' km @ '' '' @ w \<noteq> []" by (simp add: dice_expr_def)
  have sp: "split_ws (dice_expr ''1'' ''20'' km @ CHR '' '' # w) = [dice_expr ''1'' ''20'' km, w]"
    using p(2) by simp
  have n: "Number_of ''1'' = Fin 1"
    using Number_of_digits[OF d(1)] by (simp add: dec_value_def digit_val_def)
  have f: "Number_of ''20'' = Fin 20"
    using Number_of_digits[OF d(2,3)] by (simp add: dec_value_def digit_val_def)
  have Kb: "\<bar>K\<bar> < 2 ^ 53" using assms(2) unfolding K_def by linarith
  have k0: "km = [] \<Longrightarrow> K = 0" by (simp add: K_def modifier_value_def)
  have k1: "km \<noteq> [] \<Longrightarrow> Number_of km = Fin K"
    using Number_of_modifier[OF assms(1)] Kb by (simp add: K_def)
  have "\<bar>kept + K\<bar> < 2 ^ 53" using rk assms(2) unfolding K_def by linarith
  then have tot: "js_add (Fin kept) (Fin K) = Fin (kept + K)" by (simp add: round_double_exact)
  have m: "toLowerCase w = w"
    "test_word ''adv'' w = (w = ''adv'')" "test_word ''dis'' w = (w = ''dis'')"
    using assms(4) mode_word_tests by auto
  have either: "(w = ''adv'') \<or> (w = ''dis'')" by (rule assms(4))
  have "rollDiceCommand str (''/roll '' @ dice_expr ''1'' ''20'' km @ '' '' @ w) draws
      = roll_phase str 1 20 K (w = ''adv'') (w = ''dis'') draws"
    unfolding rollDiceCommand_cascade Let_def p(1)
    using ne by (simp add: sp match_dice_expr[OF d assms(1)] n f k0 k1 m)
  also have "\<dots> = Returns (advdis_report str (w = ''adv'') a b kept K (Fin (kept + K)))"
  proof (cases "w = ''adv''")
    case True
    then have "kept = max a b" by (simp add: kept_def)
    then show ?thesis
      unfolding roll_phase_advdis[OF either] assms(3) using True tot
      by (simp add: Let_def a_def[symmetric] b_def[symmetric])
  next
    case False
    then have "kept = min a b" by (simp add: kept_def)
    then show ?thesis
      unfolding roll_phase_advdis[OF either] assms(3) using False tot
      by (simp add: Let_def a_def[symmetric] b_def[symmetric])
  qed
  finally have R: "rollDiceCommand str (''/roll '' @ dice_expr ''1'' ''20'' km @ '' '' @ w) draws
      = Returns (advdis_report str (w = ''adv'') a b kept K (Fin (kept + K)))" .
  have "rollDiceCommand str (''/roll 1d20'' @ km @ '' '' @ w) draws
      = Returns (advdis_report str (w = ''adv'') a b kept K (Fin (kept + K)))"
    unfolding e by (rule R)
  then show ?thesis
    unfolding Let_def K_def[symmetric] a_def[symmetric] b_def[symmetric] kept_def[symmetric]
    using ra rb by simp
qed

theorem advantage_keeps_max_disadvantage_min_witness:
  "rollDiceCommand decimal ''/roll 1d20-3 dis'' [5, 0xfffffffe, 7]
     = Returns (advdis_report decimal False 6 8 6 (- 3) (Fin 3))
   \<and> rollDiceCommand decimal ''/roll 1d20 adv'' [5, 0xfffffffe, 7]
     = Returns (advdis_report decimal True 6 8 8 0 (Fin 8))"
proof -
  have a: "modifier_text ''-3''" "modifier_text []"
    by (simp_all add: modifier_text_def digits_def is_digit_def)
  have v: "modifier_value ''-3'' = - 3" "modifier_value [] = 0"
    by (simp_all add: dec_value_def digit_val_def modifier_value_def)
  have f: "filter (accepted 20) [5, 0xfffffffe, 7 :: u32] = 5 # 7 # []"
    by (simp add: accepted_def)
  have b: "\<bar>modifier_value ''-3''\<bar> + 20 < 2 ^ 53" "\<bar>modifier_value []\<bar> + 20 < 2 ^ 53"
    by (simp_all add: v)
  have "rollDiceCommand decimal (''/roll 1d20'' @ ''-3'' @ '' '' @ ''dis'') [5, 0xfffffffe, 7]
      = Returns (advdis_report decimal False 6 8 6 (- 3) (Fin 3))"
    using advantage_keeps_max_disadvantage_min[OF a(1) b(1) f, of "''dis''" decimal]
    by (simp add: v Let_def)
  moreover have "rollDiceCommand decimal (''/roll 1d20'' @ [] @ '' '' @ ''adv'') [5, 0xfffffffe, 7]
      = Returns (advdis_report decimal True 6 8 8 0 (Fin 8))"
    using advantage_keeps_max_disadvantage_min[OF a(2) b(2) f, of "''adv''" decimal]
    by (simp add: v Let_def)
  ultimately show ?thesis by simp
qed

text \<open>
  C6, as the specification states it, fails for a modifier that is beyond the exact
  integers of a double: \<open>/roll 1d20+9007199254740992 adv\<close> with the two values 1 and 1
  reports the total 9007199254740992, not 9007199254740993.
\<close>

theorem advantage_total_rounded_counterexample:
  "rollDiceCommand decimal ''/roll 1d20+9007199254740992 adv'' [0, 0]
     = Returns (dice_emoji @ '' /roll 1d20 adv+9007199254740992'' @ [LF]
                @ ''Jets: 1, 1 '' @ [CHR 0xE2, CHR 0x86, CHR 0x92] @ '' gard''
                @ [CHR 0xC3, CHR 0xA9] @ '': 1 (+9007199254740992)'' @ [LF]
                @ ''Total: 9007199254740992'')
   \<and> max (1 :: int) 1 + 9007199254740992 \<noteq> 9007199254740992"
  by (simp add: str_eval num_eval roll_eval)

subsection \<open>The rejection policy\<close>

lemma bit_length_bounds: "0 < n \<Longrightarrow> 2 ^ (bit_length n - 1) \<le> n \<and> n < 2 ^ bit_length n"
proof (induction n rule: bit_length.induct)
  case (1 n)
  show ?case
  proof (cases "n div 2 = 0")
    case True
    with 1(2) have "n = 1" by (simp add: div_eq_0_iff)
    then show ?thesis by (simp add: bit_length.simps)
  next
    case False
    then have h: "0 < n div 2" by simp
    have n0: "n \<noteq> 0" using 1(2) by simp
    from 1(1)[OF n0 h] have ih: "2 ^ (bit_length (n div 2) - 1) \<le> n div 2"
      "n div 2 < 2 ^ bit_length (n div 2)" by simp_all
    have bl: "bit_length n = Suc (bit_length (n div 2))" using n0 by (subst bit_length.simps) simp
    have pos: "0 < bit_length (n div 2)" using h by (subst bit_length.simps) simp
    have "2 ^ (bit_length n - 1) = 2 * 2 ^ (bit_length (n div 2) - 1)"
      using pos by (simp add: bl power_eq_if)
    also have "\<dots> \<le> 2 * (n div 2)" using ih(1) by simp
    also have "\<dots> \<le> n" by simp
    finally have lo: "2 ^ (bit_length n - 1) \<le> n" .
    have "n < 2 * (n div 2) + 2" by presburger
    also have "\<dots> \<le> 2 * 2 ^ bit_length (n div 2)" using ih(2) by simp
    finally have hi: "n < 2 ^ bit_length n" by (simp add: bl)
    show ?thesis using lo hi by simp
  qed
qed

text \<open>An integer from \<open>2^1024\<close> on has no finite double.\<close>

lemma round_double_overflow:
  assumes "2 ^ 1024 \<le> v"
  shows "round_double v = PosInf"
proof -
  define a where "a = nat \<bar>v\<bar>"
  have v0: "0 \<le> v" using assms by (smt (verit) zero_le_power)
  have "(2 :: int) ^ 1024 \<le> int a" using assms v0 by (simp add: a_def)
  then have a_big: "(2 :: nat) ^ 1024 \<le> a" by (metis of_nat_le_iff of_nat_numeral of_nat_power)
  have a53: "\<not> a < 2 ^ 53"
  proof -
    have "(2 :: nat) ^ 53 \<le> 2 ^ 1024" by (rule power_increasing) simp_all
    then show ?thesis using a_big by linarith
  qed
  have apos: "0 < a" using a_big by (metis gr0I not_less_eq_eq power_eq_0_iff zero_neq_numeral a53 zero_less_numeral zero_less_power)
  define bl where "bl = bit_length a"
  have b: "2 ^ (bl - 1) \<le> a" "a < 2 ^ bl" using bit_length_bounds[OF apos] by (simp_all add: bl_def)
  have "(2 :: nat) ^ 1024 < 2 ^ bl" using a_big b(2) by linarith
  then have bl_big: "1024 < bl"
    using power_less_imp_less_exp[of "2 :: nat" 1024 bl] by simp
  define q :: nat where "q = 2 ^ (bl - 53)"
  define m where "m = a div q"
  have qpos: "0 < q" by (simp add: q_def)
  have "2 ^ 52 * q = (2 :: nat) ^ (bl - 1)"
  proof -
    have "52 + (bl - 53) = bl - 1" using bl_big by simp
    then show ?thesis unfolding q_def by (metis power_add)
  qed
  then have "2 ^ 52 * q \<le> a" using b(1) by simp
  then have m_big: "2 ^ 52 \<le> m" unfolding m_def using qpos
    by (metis div_mult_self_is_m div_le_mono)
  have mq: "(2 :: nat) ^ 1024 \<le> m * q"
  proof -
    have "(2 :: nat) ^ 1024 \<le> 2 ^ (bl - 1)" using bl_big by (intro power_increasing) simp_all
    also have "\<dots> = 2 ^ 52 * q" using \<open>2 ^ 52 * q = (2 :: nat) ^ (bl - 1)\<close> by simp
    also have "\<dots> \<le> m * q" using m_big by simp
    finally show ?thesis .
  qed
  have mq1: "(2 :: nat) ^ 1024 \<le> (m + 1) * q" using mq by (simp add: add_mult_distrib)
  have "\<not> v < 0" using v0 by simp
  then show ?thesis
    unfolding round_double_def Let_def a_def[symmetric] bl_def[symmetric] q_def[symmetric]
      m_def[symmetric]
    using a53 mq mq1 by simp
qed

lemma dec_value_snoc: "dec_value (ds @ [c]) = 10 * dec_value ds + digit_val c"
  by (simp add: dec_value_def)

lemma dec_value_zeros: "dec_value (ds @ replicate k (CHR ''0'')) = dec_value ds * 10 ^ k"
proof (induction k)
  case 0
  then show ?case by simp
next
  case (Suc k)
  have "ds @ replicate (Suc k) (CHR ''0'') = (ds @ replicate k (CHR ''0'')) @ [CHR ''0'']"
    by (simp add: replicate_append_same)
  then show ?case using Suc by (simp only: dec_value_snoc) (simp add: digit_val_def)
qed

lemma policy_msgs_nonempty: "m \<in> set policy_msgs \<Longrightarrow> m \<noteq> []"
  using policy_msgs_hd by blast

lemma policy_msgs_member:
  "usage_msg \<in> set policy_msgs" "format_msg \<in> set policy_msgs" "invalid_msg \<in> set policy_msgs"
  "count_msg \<in> set policy_msgs" "faces_msg \<in> set policy_msgs" "unsupported_msg \<in> set policy_msgs"
  by (simp_all add: policy_msgs_def)

text \<open>
  What the checks of \<open>rollDiceCommand\<close> decide for an input, in their order: the message
  it returns, or \<open>None\<close> when the input passes them all and the dice are rolled.
\<close>

definition policy_verdict :: "string \<Rightarrow> string option" where
  "policy_verdict input =
     (let rest = trim (strip_roll input) in
      if rest = [] then Some usage_msg
      else
        (case match_dice (hd (split_ws rest)) of
           None \<Rightarrow> Some format_msg
         | Some (m1, m2, m3) \<Rightarrow>
             (case all_finite (if m1 \<noteq> [] then Number_of m1 else Fin 1) (Number_of m2)
                     (case m3 of Some s \<Rightarrow> Number_of s | None \<Rightarrow> Fin 0) of
                None \<Rightarrow> Some invalid_msg
              | Some (n, faces, md) \<Rightarrow>
                  if n < 1 \<or> 50 < n then Some count_msg
                  else if faces < 2 \<or> 1000 < faces then Some faces_msg
                  else if (test_word ''adv'' (toLowerCase (join '' '' (tl (split_ws rest))))
                           \<or> test_word ''dis'' (toLowerCase (join '' '' (tl (split_ws rest)))))
                          \<and> \<not> (n = 1 \<and> faces = 20)
                  then Some unsupported_msg
                  else None)))"

lemma rollDiceCommand_verdict:
  "(case policy_verdict input of
      Some msg \<Rightarrow> rollDiceCommand str input draws = Returns msg \<and> msg \<in> set policy_msgs
    | None \<Rightarrow>
        (rollDiceCommand str input draws = Exhausted
         \<or> (\<exists>report. rollDiceCommand str input draws = Returns report
               \<and> report \<noteq> [] \<and> hd report = CHR 0xF0))
        \<and> (50 \<le> length (filter always_accepted draws)
             \<longrightarrow> (\<exists>report. rollDiceCommand str input draws = Returns report)))"
proof -
  let ?rest = "trim (strip_roll input)"
  show ?thesis
  proof (cases "?rest = []")
    case True
    then show ?thesis
      by (simp add: policy_verdict_def rollDiceCommand_cascade policy_msgs_member)
  next
    case False
    obtain expr others where sp: "split_ws ?rest = expr # others"
      using split_ws_not_Nil[of ?rest] by (cases "split_ws ?rest") auto
    show ?thesis
    proof (cases "match_dice expr")
      case None
      then show ?thesis
        using False sp by (simp add: policy_verdict_def rollDiceCommand_cascade policy_msgs_member)
    next
      case (Some g)
      obtain m1 m2 m3 where g: "g = (m1, m2, m3)" by (cases g) auto
      define fin where "fin = all_finite (if m1 \<noteq> [] then Number_of m1 else Fin 1) (Number_of m2)
          (case m3 of Some s \<Rightarrow> Number_of s | None \<Rightarrow> Fin 0)"
      show ?thesis
      proof (cases fin)
        case None
        have "policy_verdict input = Some invalid_msg"
          unfolding policy_verdict_def Let_def
          using \<open>?rest \<noteq> []\<close> sp \<open>match_dice expr = Some g\<close> g None
          by (simp add: fin_def[symmetric])
        moreover have "rollDiceCommand str input draws = Returns invalid_msg"
          unfolding rollDiceCommand_cascade Let_def
          using \<open>?rest \<noteq> []\<close> sp \<open>match_dice expr = Some g\<close> g None
          by (simp add: fin_def[symmetric])
        ultimately show ?thesis by (simp add: policy_msgs_member)
      next
        case (Some t)
        obtain n f m where abc: "fin = Some (n, f, m)" using Some by (cases t) auto
        define wa where "wa = test_word ''adv'' (toLowerCase (join '' '' others))"
        define wd where "wd = test_word ''dis'' (toLowerCase (join '' '' others))"
        have pv: "policy_verdict input =
            (if n < 1 \<or> 50 < n then Some count_msg
             else if f < 2 \<or> 1000 < f then Some faces_msg
             else if (wa \<or> wd) \<and> \<not> (n = 1 \<and> f = 20) then Some unsupported_msg
             else None)"
          unfolding policy_verdict_def Let_def
          using \<open>?rest \<noteq> []\<close> sp \<open>match_dice expr = Some g\<close> g abc
          by (simp add: fin_def[symmetric] wa_def[symmetric] wd_def[symmetric])
        have rd: "rollDiceCommand str input draws =
            (if n < 1 \<or> 50 < n then Returns count_msg
             else if f < 2 \<or> 1000 < f then Returns faces_msg
             else if (wa \<or> wd) \<and> \<not> (n = 1 \<and> f = 20) then Returns unsupported_msg
             else roll_phase str n f m wa wd draws)"
          unfolding rollDiceCommand_cascade Let_def
          using \<open>?rest \<noteq> []\<close> sp \<open>match_dice expr = Some g\<close> g abc
          by (simp add: fin_def[symmetric] wa_def[symmetric] wd_def[symmetric])
        show ?thesis
        proof (cases "policy_verdict input")
          case (Some msg)
          then show ?thesis using pv rd by (auto simp: policy_msgs_member split: if_splits)
        next
          case None
          then have ok: "1 \<le> n" "n \<le> 50" "2 \<le> f" "f \<le> 1000" "(wa \<or> wd) \<longrightarrow> f = 20"
            and one: "(wa \<or> wd) \<longrightarrow> n = 1 \<and> f = 20"
            using pv by (auto split: if_splits)
          have "rollDiceCommand str input draws = roll_phase str n f m wa wd draws"
            using rd ok(1-4) one by auto
          then show ?thesis
            using None roll_phase_total[OF ok, where str = str and md = m and draws = draws]
            by simp
        qed
      qed
    qed
  qed
qed

lemma rollDiceCommand_total:
  "rollDiceCommand str input draws = Exhausted
   \<or> (\<exists>msg. rollDiceCommand str input draws = Returns msg \<and> msg \<noteq> [])"
  "50 \<le> length (filter always_accepted draws)
   \<Longrightarrow> \<exists>msg. rollDiceCommand str input draws = Returns msg \<and> msg \<noteq> []"
proof -
  note v = rollDiceCommand_verdict[where input = input and str = str and draws = draws]
  show a: "rollDiceCommand str input draws = Exhausted
   \<or> (\<exists>msg. rollDiceCommand str input draws = Returns msg \<and> msg \<noteq> [])"
    using v policy_msgs_nonempty by (cases "policy_verdict input") auto
  assume "50 \<le> length (filter always_accepted draws)"
  then show "\<exists>msg. rollDiceCommand str input draws = Returns msg \<and> msg \<noteq> []"
    using v a by (cases "policy_verdict input") auto
qed

text \<open>
  C7, as the code has it. For every input and whatever the draws, \<open>rollDiceCommand\<close> raises
  no exception. The checks are made in this order, and the first that fails decides the
  message: the usage message for an empty expression, the format message for an
  expression outside the grammar, the invalid-expression message when a parsed number is
  not finite, the count message for a count outside 1..50, the faces message for a
  number of faces outside 2..1000, the unsupported-combination message for \<open>adv\<close> or
  \<open>dis\<close> with dice other than \<open>1d20\<close>. The six messages differ from each other. An input
  that passes every check is rolled: the call returns a report, which is none of the six
  messages, as soon as the draws hold enough accepted ones (fifty that every range
  accepts always suffice), and until then it is still drawing.
\<close>

theorem roll_command_rejection_policy:
  "rollDiceCommand str input draws \<noteq> Throws
   \<and> (case policy_verdict input of
        Some msg \<Rightarrow> rollDiceCommand str input draws = Returns msg \<and> msg \<in> set policy_msgs
      | None \<Rightarrow>
          (rollDiceCommand str input draws = Exhausted
           \<or> (\<exists>report. rollDiceCommand str input draws = Returns report
                 \<and> report \<notin> set policy_msgs)))
   \<and> (50 \<le> length (filter always_accepted draws)
        \<longrightarrow> (\<exists>msg. rollDiceCommand str input draws = Returns msg \<and> msg \<noteq> []))
   \<and> distinct policy_msgs"
proof (cases "policy_verdict input")
  case None
  with rollDiceCommand_verdict[where input = input and str = str and draws = draws]
  have a: "rollDiceCommand str input draws = Exhausted
           \<or> (\<exists>report. rollDiceCommand str input draws = Returns report
                 \<and> report \<noteq> [] \<and> hd report = CHR 0xF0)"
    and b: "50 \<le> length (filter always_accepted draws)
             \<longrightarrow> (\<exists>report. rollDiceCommand str input draws = Returns report)"
    by simp_all
  have "rollDiceCommand str input draws \<noteq> Throws" using a by auto
  moreover have "rollDiceCommand str input draws = Exhausted
           \<or> (\<exists>report. rollDiceCommand str input draws = Returns report
                 \<and> report \<notin> set policy_msgs)"
    using a policy_msgs_hd by blast
  moreover have "50 \<le> length (filter always_accepted draws)
        \<longrightarrow> (\<exists>msg. rollDiceCommand str input draws = Returns msg \<and> msg \<noteq> [])"
    using a b by auto
  ultimately show ?thesis using None policy_msgs_distinct by simp
next
  case (Some msg)
  with rollDiceCommand_verdict[where input = input and str = str and draws = draws]
  have "rollDiceCommand str input draws = Returns msg" "msg \<in> set policy_msgs" by simp_all
  then show ?thesis using Some policy_msgs_distinct policy_msgs_nonempty by simp
qed

theorem roll_command_rejection_policy_witness:
  "rollDiceCommand decimal ''/roll 3d20 adv'' [] = Returns unsupported_msg
   \<and> rollDiceCommand decimal ''/roll 2d6x'' [] = Returns format_msg
   \<and> rollDiceCommand decimal ''/ROLL  '' [] = Returns usage_msg
   \<and> rollDiceCommand decimal ''/roll 2d1'' [] = Returns faces_msg"
proof -
  have pv: "policy_verdict ''/roll 3d20 adv'' = Some unsupported_msg"
    "policy_verdict ''/roll 2d6x'' = Some format_msg"
    "policy_verdict ''/ROLL  '' = Some usage_msg"
    "policy_verdict ''/roll 2d1'' = Some faces_msg"
    by (simp_all add: policy_verdict_def str_eval num_eval)
  show ?thesis
    using roll_command_rejection_policy[of decimal "''/roll 3d20 adv''" "[]"]
      roll_command_rejection_policy[of decimal "''/roll 2d6x''" "[]"]
      roll_command_rejection_policy[of decimal "''/ROLL  ''" "[]"]
      roll_command_rejection_policy[of decimal "''/roll 2d1''" "[]"]
    by (simp add: pv)
qed

lemma huge_count_not_finite:
  "Number_of (CHR ''1'' # replicate 309 (CHR ''0'')) = PosInf"
proof -
  have "dec_value (''1'' @ replicate 309 (CHR ''0'')) = 10 ^ 309"
    by (simp only: dec_value_zeros) (simp add: dec_value_def digit_val_def)
  moreover have "(2 :: int) ^ 1024 \<le> 10 ^ 309" by simp
  ultimately have "round_double (int (dec_value (''1'' @ replicate 309 (CHR ''0'')))) = PosInf"
    by (simp add: round_double_overflow)
  then show ?thesis by (simp add: Number_of_def)
qed

text \<open>
  C7, as the specification states it, fails twice. A count outside 1..50 gets the
  invalid-expression message, not the count message, when its digits denote no finite
  double (a one followed by 309 zeros); and \<open>adv\<close> with dice that are not \<open>1d20\<close> gets the
  count message, not the unsupported-combination message, when the count is out of range
  as well (\<open>/roll 0d6 adv\<close>).
\<close>

theorem rejection_policy_counterexample:
  "rollDiceCommand decimal (''/roll 1'' @ replicate 309 (CHR ''0'') @ ''d6'') []
     = Returns invalid_msg
   \<and> invalid_msg \<noteq> count_msg
   \<and> rollDiceCommand decimal ''/roll 0d6 adv'' [] = Returns count_msg
   \<and> count_msg \<noteq> unsupported_msg"
proof -
  define dn where "dn = CHR ''1'' # replicate 309 (CHR ''0'')"
  have d: "digits dn" "digits ''6''" "''6'' \<noteq> []" "modifier_text []"
    by (simp_all add: dn_def digits_def is_digit_def modifier_text_def list_all_iff)
  note p = roll_written_parse[OF d]
  have e: "''/roll 1'' @ replicate 309 (CHR ''0'') @ ''d6'' = ''/roll '' @ dice_expr dn ''6'' []"
    by (simp add: dice_expr_def dn_def)
  have dn_ne: "dn \<noteq> []" by (simp add: dn_def)
  have nf: "all_finite (Number_of dn) (Number_of ''6'') (Fin 0) = None"
    unfolding dn_def by (simp only: huge_count_not_finite) (simp add: all_finite_def)
  have "rollDiceCommand decimal (''/roll '' @ dice_expr dn ''6'' []) [] = Returns invalid_msg"
    unfolding rollDiceCommand_cascade Let_def p(1)
    using p(3) nf dn_ne by (simp add: p(2) match_dice_expr[OF d])
  then have a: "rollDiceCommand decimal (''/roll 1'' @ replicate 309 (CHR ''0'') @ ''d6'') []
      = Returns invalid_msg"
    unfolding e .
  have b: "rollDiceCommand decimal ''/roll 0d6 adv'' [] = Returns count_msg"
    by (simp add: rollDiceCommand_cascade str_eval num_eval)
  have c: "invalid_msg \<noteq> count_msg" "count_msg \<noteq> unsupported_msg"
    by (simp_all add: invalid_msg_def count_msg_def unsupported_msg_def)
  show ?thesis using a b c by blast
qed

section \<open>The chat request\<close>

subsection \<open>Which requests are answered without the model\<close>

text \<open>
  The specification's words: the last message of role \<open>user\<close>, and a text that is a
  command (trimmed, it is \<open>/help\<close> or starts with \<open>/roll\<close>, whatever the case of the
  letters).
\<close>

definition last_user_spec :: "ChatMessage list \<Rightarrow> ChatMessage option" where
  "last_user_spec ms =
     (case filter (\<lambda>m. role m = User) ms of [] \<Rightarrow> None | u # us \<Rightarrow> Some (last (u # us)))"

definition is_command_spec :: "string \<Rightarrow> bool" where
  "is_command_spec text =
     (toLowerCase (trim text) = ''/help'' \<or> prefix ''/roll'' (toLowerCase (trim text)))"

lemma find_rev_last:
  "find P (rev ms) = (case filter P ms of [] \<Rightarrow> None | u # us \<Rightarrow> Some (last (u # us)))"
proof (induction ms rule: rev_induct)
  case Nil
  then show ?case by simp
next
  case (snoc x xs)
  show ?case
  proof (cases "P x")
    case True
    obtain u us where f: "filter P xs @ [x] = u # us" by (cases "filter P xs") auto
    have "last (u # us) = x" using f by (metis last_snoc)
    then show ?thesis using True f by simp
  next
    case False
    then show ?thesis using snoc by simp
  qed
qed

lemma help_msg_nonempty: "help_msg \<noteq> []"
  by (simp add: help_msg_def)

lemma handleCommand_cases:
  "\<not> is_command_spec raw \<Longrightarrow> handleCommand str raw draws = Returns None"
  "is_command_spec raw \<Longrightarrow>
     handleCommand str raw draws = Exhausted
     \<or> (\<exists>reply. reply \<noteq> [] \<and> handleCommand str raw draws = Returns (Some reply))"
  "is_command_spec raw \<Longrightarrow> 50 \<le> length (filter always_accepted draws) \<Longrightarrow>
     \<exists>reply. reply \<noteq> [] \<and> handleCommand str raw draws = Returns (Some reply)"
proof -
  show "\<not> is_command_spec raw \<Longrightarrow> handleCommand str raw draws = Returns None"
    by (simp add: is_command_spec_def handleCommand_def Let_def)
  show "is_command_spec raw \<Longrightarrow>
     handleCommand str raw draws = Exhausted
     \<or> (\<exists>reply. reply \<noteq> [] \<and> handleCommand str raw draws = Returns (Some reply))"
  proof (cases "toLowerCase (trim raw) = ''/help''")
    case True
    then show ?thesis by (simp add: handleCommand_def Let_def help_msg_nonempty)
  next
    case False
    assume "is_command_spec raw"
    then have r: "prefix ''/roll'' (toLowerCase (trim raw))"
      using False by (simp add: is_command_spec_def)
    show ?thesis
      using rollDiceCommand_total(1)[of str "trim raw" draws] False r
      by (auto simp: handleCommand_def Let_def)
  qed
  show "is_command_spec raw \<Longrightarrow> 50 \<le> length (filter always_accepted draws) \<Longrightarrow>
     \<exists>reply. reply \<noteq> [] \<and> handleCommand str raw draws = Returns (Some reply)"
  proof (cases "toLowerCase (trim raw) = ''/help''")
    case True
    then show ?thesis by (simp add: handleCommand_def Let_def help_msg_nonempty)
  next
    case False
    assume "is_command_spec raw" and e: "50 \<le> length (filter always_accepted draws)"
    then have r: "prefix ''/roll'' (toLowerCase (trim raw))"
      using False by (simp add: is_command_spec_def)
    show ?thesis
      using rollDiceCommand_total(2)[OF e, of str "trim raw"] False r
      by (auto simp: handleCommand_def Let_def)
  qed
qed

text \<open>
  The list of messages that goes to the model when no command is answered: the
  \<open>None\<close> branch of \<open>handleChatRequest\<close>.
\<close>

definition compose_messages :: "ChatMessage list \<Rightarrow> CasusProfile option \<Rightarrow> ChatMessage list" where
  "compose_messages messages casus =
     (let hasCasusSystem =
            list_ex (\<lambda>msg. role msg = System \<and> includes_str (content msg) ''Tu es Casus'')
              messages;
          messages1 = (if \<not> hasCasusSystem
                       then \<lparr>role = System, content = SYSTEM_PROMPT\<rparr> # messages
                       else messages)
      in case buildCasusProfileSystemMessage casus of
           Some p \<Rightarrow>
             (let insertAt = min 1 (findIndex (\<lambda>m. role m \<noteq> System) messages1);
                  idx = (if insertAt = - 1 then 1 else insertAt)
              in splice_in idx p messages1)
         | None \<Rightarrow> messages1)"

lemma handleChatRequest_unfold:
  "handleChatRequest str messages casus draws =
     (case (case last_user_spec messages of
              Some m \<Rightarrow> handleCommand str (content m) draws
            | None \<Rightarrow> Returns None) of
        Exhausted \<Rightarrow> Exhausted
      | Throws \<Rightarrow> Returns ServerError
      | Returns None \<Rightarrow> Returns (ModelStream (compose_messages messages casus))
      | Returns (Some reply) \<Rightarrow>
          if reply \<noteq> [] then Returns (SseText (sseTextResponse reply))
          else Returns (ModelStream (compose_messages messages casus)))"
  unfolding handleChatRequest_def compose_messages_def last_user_spec_def find_rev_last Let_def
  by (simp split: result.split option.split list.split)

text \<open>
  C10. A chat request is answered locally, with the event stream of a command's reply,
  only if the last message of role \<open>user\<close> is a command, and it is then answered so as soon
  as the command returns (a roll returns once the draws hold enough accepted ones; until
  then the request is pending). A request whose last \<open>user\<close> message is no command, or
  that has no \<open>user\<close> message, goes to the model, whatever the earlier messages hold.
\<close>

theorem commands_are_read_from_the_last_user_message:
  "(case last_user_spec messages of
      None \<Rightarrow> (\<exists>ms. handleChatRequest str messages casus draws = Returns (ModelStream ms))
    | Some m \<Rightarrow>
        if is_command_spec (content m)
        then (handleChatRequest str messages casus draws = Exhausted
              \<or> (\<exists>reply. reply \<noteq> []
                    \<and> handleChatRequest str messages casus draws
                        = Returns (SseText (sseTextResponse reply))))
             \<and> (50 \<le> length (filter always_accepted draws)
                  \<longrightarrow> (\<exists>reply. handleChatRequest str messages casus draws
                                   = Returns (SseText (sseTextResponse reply))))
        else (\<exists>ms. handleChatRequest str messages casus draws = Returns (ModelStream ms)))"
proof (cases "last_user_spec messages")
  case None
  then show ?thesis by (simp add: handleChatRequest_unfold)
next
  case (Some m)
  show ?thesis
  proof (cases "is_command_spec (content m)")
    case False
    then show ?thesis
      using Some handleCommand_cases(1)[OF False, of str draws]
      by (simp add: handleChatRequest_unfold)
  next
    case True
    have a: "handleChatRequest str messages casus draws = Exhausted
              \<or> (\<exists>reply. reply \<noteq> []
                    \<and> handleChatRequest str messages casus draws
                        = Returns (SseText (sseTextResponse reply)))"
      using Some handleCommand_cases(2)[OF True, of str draws]
      by (auto simp: handleChatRequest_unfold)
    have b: "50 \<le> length (filter always_accepted draws)
                  \<longrightarrow> (\<exists>reply. handleChatRequest str messages casus draws
                                   = Returns (SseText (sseTextResponse reply)))"
    proof
      assume "50 \<le> length (filter always_accepted draws)"
      from handleCommand_cases(3)[OF True this, of str] obtain reply where
        "reply \<noteq> []" "handleCommand str (content m) draws = Returns (Some reply)" by blast
      then have "handleChatRequest str messages casus draws
          = Returns (SseText (sseTextResponse reply))"
        using Some by (simp add: handleChatRequest_unfold)
      then show "\<exists>reply. handleChatRequest str messages casus draws
          = Returns (SseText (sseTextResponse reply))" by blast
    qed
    show ?thesis using Some True a b by simp
  qed
qed

theorem commands_are_read_from_the_last_user_message_witness:
  "(\<exists>ms. handleChatRequest decimal
            [\<lparr>role = User, content = ''/roll d6''\<rparr>, \<lparr>role = Assistant, content = ''3''\<rparr>,
             \<lparr>role = User, content = ''merci''\<rparr>] None []
          = Returns (ModelStream ms))
   \<and> (\<exists>reply. handleChatRequest decimal
            [\<lparr>role = User, content = ''merci''\<rparr>, \<lparr>role = User, content = '' /HELP ''\<rparr>,
             \<lparr>role = Assistant, content = ''/roll d6''\<rparr>] None []
          = Returns (SseText (sseTextResponse reply)))"
proof -
  let ?a = "[\<lparr>role = User, content = ''/roll d6''\<rparr>, \<lparr>role = Assistant, content = ''3''\<rparr>,
             \<lparr>role = User, content = ''merci''\<rparr>]"
  let ?b = "[\<lparr>role = User, content = ''merci''\<rparr>, \<lparr>role = User, content = '' /HELP ''\<rparr>,
             \<lparr>role = Assistant, content = ''/roll d6''\<rparr>]"
  have la: "last_user_spec ?a = Some \<lparr>role = User, content = ''merci''\<rparr>"
    and lb: "last_user_spec ?b = Some \<lparr>role = User, content = '' /HELP ''\<rparr>"
    by (simp_all add: last_user_spec_def)
  have ca: "\<not> is_command_spec ''merci''" and cb: "is_command_spec '' /HELP ''"
    by (simp_all add: is_command_spec_def trim_def trimStart.simps trimEnd.simps ws_len_end_def
        ws1_def ws2_def ws3_def lower_ascii_def)
  have "handleChatRequest decimal ?b None [] \<noteq> Exhausted"
    by (simp add: handleChatRequest_unfold lb handleCommand_def trim_def trimStart.simps
        trimEnd.simps ws_len_end_def ws1_def ws2_def ws3_def lower_ascii_def Let_def
        help_msg_nonempty)
  then show ?thesis
    using commands_are_read_from_the_last_user_message[where messages = ?a and str = decimal
        and casus = None and draws = "[]"]
      commands_are_read_from_the_last_user_message[where messages = ?b and str = decimal
        and casus = None and draws = "[]"]
    by (simp add: la lb ca cb) blast
qed

subsection \<open>Where the persona and the profile go\<close>

lemma findIndex_range: "findIndex p xs = - 1 \<or> 0 \<le> findIndex p xs"
  by (induction xs) (auto simp: Let_def)

text \<open>
  When no incoming message is a system message with the marker, the base persona comes
  first and the profile message, if there is one, right after it.
\<close>

lemma persona_then_profile:
  assumes "\<not> list_ex (\<lambda>msg. role msg = System \<and> includes_str (content msg) ''Tu es Casus'')
              messages"
  shows "compose_messages messages casus =
     (case buildCasusProfileSystemMessage casus of
        None \<Rightarrow> \<lparr>role = System, content = SYSTEM_PROMPT\<rparr> # messages
      | Some p \<Rightarrow> \<lparr>role = System, content = SYSTEM_PROMPT\<rparr> # p # messages)"
proof (cases "buildCasusProfileSystemMessage casus")
  case None
  then show ?thesis using assms by (simp add: compose_messages_def)
next
  case (Some p)
  let ?ms = "\<lparr>role = System, content = SYSTEM_PROMPT\<rparr> # messages"
  define i where "i = findIndex (\<lambda>m. role m \<noteq> System) ?ms"
  have "i = - 1 \<or> 1 \<le> i"
    using findIndex_range[of "\<lambda>m. role m \<noteq> System" messages] by (auto simp: i_def Let_def)
  then have idx: "(if min 1 i = - 1 then 1 else min 1 i) = 1" by (auto simp: min_def)
  have "compose_messages messages casus = splice_in (if min 1 i = - 1 then 1 else min 1 i) p ?ms"
    using assms Some by (simp add: compose_messages_def Let_def i_def del: findIndex.simps)
  also have "\<dots> = splice_in 1 p ?ms" by (simp only: idx)
  also have "\<dots> = \<lparr>role = System, content = SYSTEM_PROMPT\<rparr> # p # messages"
    by (simp add: splice_in_def)
  finally show ?thesis using Some by simp
qed

text \<open>When an incoming system message has the marker, no base persona is added.\<close>

lemma no_duplicate_persona:
  assumes "list_ex (\<lambda>msg. role msg = System \<and> includes_str (content msg) ''Tu es Casus'')
              messages"
  shows "compose_messages messages None = messages"
  using assms by (simp add: compose_messages_def buildCasusProfileSystemMessage_def)

text \<open>
  C3 at an input where the code departs from it. The incoming list starts with a \<open>user\<close>
  message and holds the persona (a system message with the marker) after it; the profile
  is non-null. No persona is added, and the profile message is spliced in at index 0: it
  ends up before the \<open>user\<close> message and two places before the persona, not right after
  the persona.
\<close>

theorem profile_lands_before_persona:
  "handleChatRequest str
     [\<lparr>role = User, content = ''hi''\<rparr>, \<lparr>role = System, content = ''Tu es Casus''\<rparr>]
     (Some \<lparr>mode = Some ''mj'', univers = None, style = None\<rparr>) draws
   = Returns (ModelStream
       [\<lparr>role = System, content = ''Contexte de partie:'' @ [LF] @ mj_line\<rparr>,
        \<lparr>role = User, content = ''hi''\<rparr>,
        \<lparr>role = System, content = ''Tu es Casus''\<rparr>])"
  by (simp add: handleChatRequest_def handleCommand_def buildCasusProfileSystemMessage_def
      splice_in_def includes_str_def trim_def trimStart.simps trimEnd.simps ws_len_end_def
      ws1_def ws2_def ws3_def lower_ascii_def Let_def)

theorem profile_lands_before_persona_witness:
  "handleChatRequest decimal
     [\<lparr>role = User, content = ''hi''\<rparr>, \<lparr>role = System, content = ''Tu es Casus''\<rparr>]
     (Some \<lparr>mode = Some ''mj'', univers = None, style = None\<rparr>) []
   = Returns (ModelStream
       [\<lparr>role = System, content = ''Contexte de partie:'' @ [LF] @ mj_line\<rparr>,
        \<lparr>role = User, content = ''hi''\<rparr>,
        \<lparr>role = System, content = ''Tu es Casus''\<rparr>])"
  by (rule profile_lands_before_persona)

section \<open>The sentinel\<close>

lemma handle_events_sentinel:
  "''[DONE]'' \<notin> set pre \<Longrightarrow>
     handle_events nt (pre @ ''[DONE]'' # post) rt = (fst (handle_events nt pre rt), True)"
  by (induction pre arbitrary: rt) auto

lemma split_on_line: "sep \<notin> set l \<Longrightarrow> split_on sep (l @ sep # s) = l # split_on sep s"
  by (induction l) (auto split: list.split)

lemma split_on_single: "sep \<notin> set l \<Longrightarrow> split_on sep l = [l]"
  by (induction l) auto

lemma split_on_join:
  "\<forall>l \<in> set ls. sep \<notin> set l \<Longrightarrow> ls \<noteq> [] \<Longrightarrow> split_on sep (join [sep] ls) = ls"
proof (induction "[sep]" ls rule: join.induct)
  case 1
  then show ?case by simp
next
  case (2 x)
  then show ?case by (simp add: split_on_single)
next
  case (3 x y ys)
  then show ?case by (simp add: split_on_line)
qed

lemma dataLines_of_lines:
  assumes "\<forall>l \<in> set ls. LF \<notin> set l"
  shows "dataLines_of (join [LF] ls)
     = map (\<lambda>l. trimStart (drop (length ''data:'') l)) (filter (prefix ''data:'') ls)"
proof (cases "ls = []")
  case True
  then show ?thesis by (simp add: dataLines_of_def)
next
  case False
  with assms have "split_on LF (join [LF] ls) = ls" by (rule split_on_join)
  then show ?thesis unfolding dataLines_of_def by (simp only:)
qed

text \<open>
  C5. Take the read loop of \<open>sendMessage\<close> in any state, and a chunk whose events, after
  decoding, are \<open>pre\<close>, then the sentinel \<open>[DONE]\<close>, then \<open>post\<close>, the sentinel not being in
  \<open>pre\<close>. The loop ends there: the response text is what the events of \<open>pre\<close> make of it,
  so the events after the sentinel add nothing; the carry-over buffer is emptied; and the
  chunks that follow are never read. The same holds of the events found when the reader
  reports the end. The payloads of an event come from its \<open>data:\<close> lines alone: the lines
  of the event being \<open>ls\<close>, they are the \<open>data:\<close> lines without the prefix and the white
  space after it, in their order.
\<close>

theorem sentinel_stops_the_reader:
  "(decode_chunk pending seen v = (piece, held, seen')
      \<and> events (consumeSseEvents (buf @ piece)) = pre @ ''[DONE]'' # post
      \<and> ''[DONE]'' \<notin> set pre
    \<longrightarrow> read_loop nt rt buf pending seen (v # reads)
          = \<lparr>final_text = fst (handle_events nt pre rt), final_buffer = [], unread = reads\<rparr>)
   \<and> (events (consumeSseEvents (buf @ [LF, LF])) = pre @ ''[DONE]'' # post
      \<and> ''[DONE]'' \<notin> set pre
    \<longrightarrow> final_text (read_loop nt rt buf pending seen []) = fst (handle_events nt pre rt))
   \<and> ((\<forall>l \<in> set ls. LF \<notin> set l)
    \<longrightarrow> dataLines_of (join [LF] ls)
          = map (\<lambda>l. trimStart (drop (length ''data:'') l)) (filter (prefix ''data:'') ls))"
proof (intro conjI impI)
  assume a: "decode_chunk pending seen v = (piece, held, seen')
      \<and> events (consumeSseEvents (buf @ piece)) = pre @ ''[DONE]'' # post
      \<and> ''[DONE]'' \<notin> set pre"
  then have "handle_events nt (events (consumeSseEvents (buf @ piece))) rt
      = (fst (handle_events nt pre rt), True)"
    by (simp add: handle_events_sentinel)
  then show "read_loop nt rt buf pending seen (v # reads)
      = \<lparr>final_text = fst (handle_events nt pre rt), final_buffer = [], unread = reads\<rparr>"
    using a by simp
next
  assume a: "events (consumeSseEvents (buf @ [LF, LF])) = pre @ ''[DONE]'' # post
      \<and> ''[DONE]'' \<notin> set pre"
  then have "handle_events nt (events (consumeSseEvents (buf @ [LF, LF]))) rt
      = (fst (handle_events nt pre rt), True)"
    by (simp add: handle_events_sentinel)
  then show "final_text (read_loop nt rt buf pending seen []) = fst (handle_events nt pre rt)"
    by simp
next
  assume "\<forall>l \<in> set ls. LF \<notin> set l"
  then show "dataLines_of (join [LF] ls)
      = map (\<lambda>l. trimStart (drop (length ''data:'') l)) (filter (prefix ''data:'') ls)"
    by (rule dataLines_of_lines)
qed

theorem sentinel_stops_the_reader_witness:
  "read_loop (\<lambda>l. l) [] [] [] False
     [''event: m'' @ [LF] @ ''data: {'' @ [DQ] @ ''response'' @ [DQ] @ '':'' @ [DQ] @ ''a''
        @ [DQ] @ ''}'' @ [LF, LF] @ ''data: [DONE]'' @ [LF, LF] @ ''data: {'' @ [DQ]
        @ ''response'' @ [DQ] @ '':'' @ [DQ] @ ''b'' @ [DQ] @ ''}'' @ [LF, LF] @ ''data: c'',
      ''data: d'' @ [LF, LF]]
     = \<lparr>final_text = ''a'', final_buffer = [], unread = [''data: d'' @ [LF, LF]]\<rparr>
   \<and> final_text (read_loop (\<lambda>l. l) ''a'' (''event: end'' @ [LF] @ ''data: [DONE]'') [] True [])
     = ''a''
   \<and> dataLines_of (''event: m'' @ [LF] @ ''data: a'' @ [LF] @ '': c'' @ [LF] @ ''data:  b'')
     = [''a'', ''b'']"
proof -
  let ?J = "''{'' @ [DQ] @ ''response'' @ [DQ] @ '':'' @ [DQ] @ ''a'' @ [DQ] @ ''}''"
  let ?K = "''{'' @ [DQ] @ ''response'' @ [DQ] @ '':'' @ [DQ] @ ''b'' @ [DQ] @ ''}''"
  let ?c = "''event: m'' @ [LF] @ ''data: {'' @ [DQ] @ ''response'' @ [DQ] @ '':'' @ [DQ] @ ''a''
        @ [DQ] @ ''}'' @ [LF, LF] @ ''data: [DONE]'' @ [LF, LF] @ ''data: {'' @ [DQ]
        @ ''response'' @ [DQ] @ '':'' @ [DQ] @ ''b'' @ [DQ] @ ''}'' @ [LF, LF] @ ''data: c''"
  let ?b = "''event: end'' @ [LF] @ ''data: [DONE]''"
  let ?ls = "[''event: m'', ''data: a'', '': c'', ''data:  b'']"
  have d: "decode_chunk [] False ?c = (?c, [], True)"
    by (simp add: decode_chunk_def utf8_incomplete_def utf8_need_def utf8_cont_def
        strip_bom_def)
  have e: "events (consumeSseEvents ([] @ ?c)) = [?J] @ ''[DONE]'' # [?K]"
    by (simp add: consumeSseEvents_def sse_loop.simps dataLines_of_def trimStart.simps
        ws1_def ws2_def ws3_def)
  have n: "''[DONE]'' \<notin> set [?J]" by simp
  have p: "fst (handle_events (\<lambda>l. l) [?J] []) = ''a''"
    by (simp add: append_payload_def JSON_parse_def skip_ws_def json_ws_def cons_text_def
        get_prop_def opt_chain_def js_truthy_def)
  have f: "events (consumeSseEvents (?b @ [LF, LF])) = [] @ ''[DONE]'' # []"
    by (simp add: consumeSseEvents_def sse_loop.simps dataLines_of_def trimStart.simps
        ws1_def ws2_def ws3_def)
  have m: "''[DONE]'' \<notin> set []" by simp
  have l: "\<forall>l \<in> set ?ls. LF \<notin> set l" by simp
  have t: "map (\<lambda>l. trimStart (drop (length ''data:'') l)) (filter (prefix ''data:'') ?ls)
      = [''a'', ''b'']"
    by (simp add: trimStart.simps ws1_def ws2_def ws3_def)
  have j: "join [LF] ?ls = ''event: m'' @ [LF] @ ''data: a'' @ [LF] @ '': c'' @ [LF] @ ''data:  b''"
    by simp
  note T = sentinel_stops_the_reader[where pending = "[]" and seen = False and v = ?c
      and piece = ?c and held = "[]" and seen' = True and buf = "[]" and pre = "[?J]"
      and post = "[?K]" and nt = "\<lambda>l. l" and rt = "[]" and reads = "[''data: d'' @ [LF, LF]]"
      and ls = ?ls]
  note U = sentinel_stops_the_reader[where buf = ?b and pre = "[]" and post = "[]"
      and nt = "\<lambda>l. l" and rt = "''a''" and pending = "[]" and seen = True]
  have 1: "read_loop (\<lambda>l. l) [] [] [] False [?c, ''data: d'' @ [LF, LF]]
      = \<lparr>final_text = ''a'', final_buffer = [], unread = [''data: d'' @ [LF, LF]]\<rparr>"
    using T[THEN conjunct1, THEN mp, OF conjI[OF d conjI[OF e n]]] unfolding p .
  have 2: "final_text (read_loop (\<lambda>l. l) ''a'' ?b [] True []) = ''a''"
    using U[THEN conjunct2, THEN conjunct1, THEN mp, OF conjI[OF f m]] by simp
  have 3: "dataLines_of (''event: m'' @ [LF] @ ''data: a'' @ [LF] @ '': c'' @ [LF] @ ''data:  b'')
      = [''a'', ''b'']"
    using T[THEN conjunct2, THEN conjunct2, THEN mp, OF l] unfolding t j .
  show ?thesis using 1 2 3 by (intro conjI)
qed
section \<open>The event stream, read in pieces\<close>

subsection \<open>Events do not depend on where the text is cut\<close>

lemma indexOf_append:
  "indexOf n x = Some i \<Longrightarrow> indexOf (n @ m) x = Some i"
proof (induction n arbitrary: i)
  case Nil
  then have "x = []" "i = 0" by (simp_all split: if_splits)
  then show ?case by (cases m) simp_all
next
  case (Cons a n)
  show ?case
  proof (cases "prefix x (a # n)")
    case True
    then have "prefix x ((a # n) @ m)" by (rule prefix_prefix)
    with True Cons.prems show ?thesis by simp
  next
    case False
    with Cons.prems obtain j where j: "indexOf n x = Some j" "i = Suc j" by auto
    have "length x \<le> length n" using indexOf_bound[OF j(1)] by simp
    then have "\<not> prefix x ((a # n) @ m)"
      using False by (metis append_prefixD le_SucI length_Cons prefix_length_prefix prefixI
          prefix_order.order_refl append.assoc prefix_def)
    with Cons.IH[OF j(1)] j(2) show ?thesis by simp
  qed
qed

lemma sse_loop_events_acc:
  "sse_loop n evs = \<lparr>events = evs @ events (sse_loop n []), buffer = buffer (sse_loop n [])\<rparr>"
proof (induction "length n" arbitrary: n evs rule: less_induct)
  case less
  show ?case
  proof (cases "indexOf n [LF, LF]")
    case None
    then show ?thesis by (simp add: sse_loop.simps[of n])
  next
    case (Some i)
    let ?n' = "drop (i + 2) n"
    let ?d = "dataLines_of (take i n)"
    have shorter: "length ?n' < length n" using indexOf_bound[OF Some] by simp
    note IH = less[OF shorter]
    show ?thesis
    proof (cases "length ?d = 0")
      case True
      have "sse_loop n evs = sse_loop ?n' evs" "sse_loop n [] = sse_loop ?n' []"
        using Some True by (simp_all add: sse_loop.simps[of n])
      then show ?thesis using IH[of evs] by simp
    next
      case False
      let ?e = "join [LF] ?d"
      have a: "sse_loop n evs = sse_loop ?n' (evs @ [?e])" "sse_loop n [] = sse_loop ?n' [?e]"
        using Some False by (simp_all add: sse_loop.simps[of n])
      show ?thesis using IH[of "evs @ [?e]"] IH[of "[?e]"] by (simp add: a)
    qed
  qed
qed

lemma sse_loop_events: "events (sse_loop n evs) = evs @ events (sse_loop n [])"
  and sse_loop_buffer: "buffer (sse_loop n evs) = buffer (sse_loop n [])"
  using sse_loop_events_acc[of n evs] by simp_all

text \<open>What is left over is the end of the text, and holds no blank line.\<close>

lemma sse_loop_buffer_suffix: "suffix (buffer (sse_loop n evs)) n"
proof (induction "length n" arbitrary: n evs rule: less_induct)
  case less
  show ?case
  proof (cases "indexOf n [LF, LF]")
    case None
    then show ?thesis by (simp add: sse_loop.simps[of n])
  next
    case (Some i)
    let ?n' = "drop (i + 2) n"
    have shorter: "length ?n' < length n" using indexOf_bound[OF Some] by simp
    have "buffer (sse_loop n evs) = buffer (sse_loop ?n' [])"
      using Some sse_loop_buffer[of ?n'] by (simp add: sse_loop.simps[of n] Let_def)
    moreover have "suffix (buffer (sse_loop ?n' [])) ?n'" by (rule less[OF shorter])
    moreover have "suffix ?n' n" by (rule suffix_drop)
    ultimately show ?thesis by (metis suffix_order.order_trans)
  qed
qed

lemma sse_loop_append:
  "sse_loop (n @ m) evs = sse_loop (buffer (sse_loop n []) @ m) (evs @ events (sse_loop n []))"
proof (induction "length n" arbitrary: n evs rule: less_induct)
  case less
  show ?case
  proof (cases "indexOf n [LF, LF]")
    case None
    then show ?thesis by (simp add: sse_loop.simps[of n])
  next
    case (Some i)
    let ?n' = "drop (i + 2) n"
    let ?d = "dataLines_of (take i n)"
    have b: "i + 2 \<le> length n" using indexOf_bound[OF Some] by simp
    then have shorter: "length ?n' < length n" by simp
    note IH = less[OF shorter]
    have i: "indexOf (n @ m) [LF, LF] = Some i" using Some by (rule indexOf_append)
    have t: "take i (n @ m) = take i n" "drop (i + 2) (n @ m) = ?n' @ m" using b by simp_all
    show ?thesis
    proof (cases "length ?d = 0")
      case True
      have "sse_loop (n @ m) evs = sse_loop (?n' @ m) evs"
        by (subst sse_loop.simps) (simp only: i t option.case Let_def True refl if_True)
      moreover have "sse_loop n [] = sse_loop ?n' []"
        using Some True by (simp add: sse_loop.simps[of n])
      ultimately show ?thesis using IH[of evs] by simp
    next
      case False
      let ?e = "join [LF] ?d"
      have "sse_loop (n @ m) evs = sse_loop (?n' @ m) (evs @ [?e])"
        by (subst sse_loop.simps) (simp only: i t option.case Let_def False if_False)
      moreover have "sse_loop n [] = sse_loop ?n' [?e]"
        using Some False by (simp add: sse_loop.simps[of n])
      moreover have "events (sse_loop ?n' [?e]) = [?e] @ events (sse_loop ?n' [])"
        "buffer (sse_loop ?n' [?e]) = buffer (sse_loop ?n' [])"
        by (rule sse_loop_events, rule sse_loop_buffer)
      ultimately show ?thesis using IH[of "evs @ [?e]"] by simp
    qed
  qed
qed

lemma replace_cr_id: "CR \<notin> set s \<Longrightarrow> replace_cr s = s"
  by (induction s) auto

lemma replace_cr_no_cr: "CR \<notin> set (replace_cr s)"
  by (induction s) auto

lemma replace_cr_app: "replace_cr (a @ b) = replace_cr a @ replace_cr b"
  by (induction a) auto

lemma consume_buffer_no_cr: "CR \<notin> set (buffer (consumeSseEvents a))"
proof -
  have "set (buffer (consumeSseEvents a)) \<subseteq> set (replace_cr a)"
    unfolding consumeSseEvents_def using sse_loop_buffer_suffix set_mono_suffix by blast
  then show ?thesis using replace_cr_no_cr by blast
qed

text \<open>
  Reading \<open>a\<close> and then, with what was left over, \<open>b\<close> gives the events of \<open>a @ b\<close>, and
  leaves over the same.
\<close>

lemma consume_append:
  "events (consumeSseEvents (a @ b))
     = events (consumeSseEvents a) @ events (consumeSseEvents (buffer (consumeSseEvents a) @ b))"
  "buffer (consumeSseEvents (a @ b))
     = buffer (consumeSseEvents (buffer (consumeSseEvents a) @ b))"
proof -
  let ?r = "buffer (consumeSseEvents a)"
  have r: "replace_cr (?r @ b) = ?r @ replace_cr b"
    by (simp add: replace_cr_app replace_cr_id consume_buffer_no_cr)
  have "consumeSseEvents (a @ b)
      = sse_loop (?r @ replace_cr b) (events (consumeSseEvents a))"
    unfolding consumeSseEvents_def replace_cr_app
    by (subst sse_loop_append) simp
  also have "\<dots> = \<lparr>events = events (consumeSseEvents a) @ events (consumeSseEvents (?r @ b)),
                     buffer = buffer (consumeSseEvents (?r @ b))\<rparr>"
    by (subst sse_loop_events_acc) (simp add: consumeSseEvents_def[of "?r @ b"] r)
  finally show
    "events (consumeSseEvents (a @ b))
       = events (consumeSseEvents a) @ events (consumeSseEvents (?r @ b))"
    "buffer (consumeSseEvents (a @ b)) = buffer (consumeSseEvents (?r @ b))"
    by simp_all
qed

lemma handle_events_append:
  "handle_events nt (xs @ ys) rt =
     (if snd (handle_events nt xs rt) then handle_events nt xs rt
      else handle_events nt ys (fst (handle_events nt xs rt)))"
  by (induction xs arbitrary: rt) auto

subsection \<open>One record of the stream\<close>

lemma indexOf_none_prefix:
  "LF \<notin> set x \<Longrightarrow> prefix T (x @ [LF]) \<Longrightarrow> indexOf T [LF, LF] = None"
proof (induction x arbitrary: T)
  case Nil
  then have "T = [] \<or> T = [LF]" by (cases T) auto
  then show ?case by auto
next
  case (Cons a x)
  show ?case
  proof (cases T)
    case Nil
    then show ?thesis by simp
  next
    case (Cons b T')
    with Cons.prems have "b = a" "prefix T' (x @ [LF])" "a \<noteq> LF" "LF \<notin> set x" by auto
    with Cons.IH[of T'] Cons show ?thesis by simp
  qed
qed

lemma indexOf_first_blank:
  "LF \<notin> set x \<Longrightarrow> indexOf (x @ LF # LF # r) [LF, LF] = Some (length x)"
  by (induction x) auto

lemma split_on_no_sep: "sep \<notin> set s \<Longrightarrow> split_on sep s = [s]"
  by (induction s) auto

lemma dataLines_of_data: "LF \<notin> set p \<Longrightarrow> dataLines_of (''data:'' @ p) = [trimStart p]"
proof -
  assume "LF \<notin> set p"
  then have "LF \<notin> set (''data:'' @ p)" by simp
  then have "split_on LF (''data:'' @ p) = [''data:'' @ p]" by (rule split_on_no_sep)
  then show ?thesis unfolding dataLines_of_def by simp
qed

lemma sse_loop_record:
  assumes "LF \<notin> set p"
  shows "sse_loop (''data:'' @ p @ LF # LF # r) evs = sse_loop r (evs @ [trimStart p])"
proof -
  let ?x = "''data:'' @ p"
  have x: "LF \<notin> set ?x" using assms by simp
  have e: "''data:'' @ p @ LF # LF # r = ?x @ LF # LF # r" by simp
  have i: "indexOf (?x @ LF # LF # r) [LF, LF] = Some (length ?x)"
    using x by (rule indexOf_first_blank)
  have t: "take (length ?x) (?x @ LF # LF # r) = ?x"
    "drop (length ?x + 2) (?x @ LF # LF # r) = r" by simp_all
  have d: "dataLines_of ?x = [trimStart p]" using assms by (rule dataLines_of_data)
  have "sse_loop (?x @ LF # LF # r) evs = sse_loop r (evs @ [trimStart p])"
    by (subst sse_loop.simps) (simp only: i t d option.case Let_def, simp)
  then show ?thesis unfolding e .
qed

lemma sse_loop_partial:
  "LF \<notin> set x \<Longrightarrow> prefix T (x @ [LF]) \<Longrightarrow> sse_loop T evs = \<lparr>events = evs, buffer = T\<rparr>"
  using indexOf_none_prefix[of x T] by (simp add: sse_loop.simps[of T])

subsection \<open>What the server writes is read back\<close>

lemma hex_digit_chars: "hex_digit n \<in> set ''0123456789abcdef''"
  unfolding hex_digit_def by (rule nth_mem) simp

lemma hex_digit_no_newline:
  "hex_digit n \<noteq> LF" "hex_digit n \<noteq> CR" "LF \<noteq> hex_digit n" "CR \<noteq> hex_digit n"
  using hex_digit_chars[of n] by auto

lemma escape_char_no_newline: "LF \<notin> set (escape_char c)" "CR \<notin> set (escape_char c)"
  by (auto simp: escape_char_def hex_digit_no_newline)

lemma unicode_escape_no_newline:
  "LF \<notin> set (unicode_escape u)" "CR \<notin> set (unicode_escape u)"
  by (simp_all add: unicode_escape_def hex_digit_no_newline)

lemma quote_body_no_newline: "LF \<notin> set (quote_body t)" "CR \<notin> set (quote_body t)"
  by (induction t rule: quote_body.induct)
    (simp_all add: escape_char_no_newline unicode_escape_no_newline split: option.split)

lemma stringify_no_newline:
  "LF \<notin> set (stringify_response reply)" "CR \<notin> set (stringify_response reply)"
  by (simp_all add: stringify_response_def QuoteJSONString_def quote_body_no_newline)

lemma trimStart_payload:
  "trimStart (CHR '' '' # stringify_response reply) = stringify_response reply"
proof -
  obtain r where r: "stringify_response reply = CHR ''{'' # DQ # CHR ''r'' # r"
    by (simp add: stringify_response_def)
  have "trimStart (CHR ''{'' # DQ # CHR ''r'' # r) = CHR ''{'' # DQ # CHR ''r'' # r"
    by (subst trimStart.simps) (simp add: ws1_def ws2_def ws3_def)
  then have "trimStart (CHR '' '' # CHR ''{'' # DQ # CHR ''r'' # r) = CHR ''{'' # DQ # CHR ''r'' # r"
    by (subst trimStart.simps) (simp add: ws1_def)
  then show ?thesis unfolding r .
qed

lemma hex_val_hex_digit: "hex_val (hex_digit k) = Some (k mod 16)"
proof -
  have "k mod 16 < 16" by simp
  then have "k mod 16 \<in> {0, 1, 2, 3, 4, 5, 6, 7, 8, 9, 10, 11, 12, 13, 14, 15}"
    by simp presburger
  then show ?thesis
    unfolding hex_digit_def by (elim insertE emptyE) (simp_all add: hex_val_def)
qed

lemma hex_val_bound: "hex_val c = Some k \<Longrightarrow> k < 16"
  by (auto simp: hex_val_def Let_def split: if_splits)

lemma hex4_bound: "hex4 (CHR ''0'') (CHR ''0'') c d = Some l \<Longrightarrow> l < 256"
proof -
  assume "hex4 (CHR ''0'') (CHR ''0'') c d = Some l"
  then obtain z w where "hex_val c = Some z" "hex_val d = Some w" "l = z * 16 + w"
    by (auto simp: hex4_def hex_val_def[of "CHR ''0''"] split: option.splits)
  then show ?thesis using hex_val_bound[of c z] hex_val_bound[of d w] by simp
qed

lemma hex4_unicode_escape:
  assumes "u < 65536"
  shows "hex4 (hex_digit (u div 4096)) (hex_digit (u div 256)) (hex_digit (u div 16))
           (hex_digit u) = Some u"
proof -
  define a where "a = u div 16"
  define b where "b = a div 16"
  define c where "c = b div 16"
  have a: "u div 16 = a" by (simp add: a_def)
  have b: "u div 256 = b" unfolding b_def a_def using div_mult2_eq[of u 16 16] by simp
  have c: "u div 4096 = c" unfolding c_def b[symmetric] using div_mult2_eq[of u 256 16] by simp
  have "c < 16" using assms unfolding c[symmetric] by simp
  then have c0: "c mod 16 = c" by simp
  have 1: "c * 16 + b mod 16 = b" unfolding c_def by simp
  have 2: "b * 16 + a mod 16 = a" unfolding b_def by simp
  have 3: "a * 16 + u mod 16 = u" unfolding a_def by simp
  have "hex4 (hex_digit (u div 4096)) (hex_digit (u div 256)) (hex_digit (u div 16))
          (hex_digit u)
      = Some (((c mod 16 * 16 + b mod 16) * 16 + a mod 16) * 16 + u mod 16)"
    unfolding hex4_def hex_val_hex_digit a b c by simp
  then show ?thesis unfolding c0 1 2 3 .
qed

text \<open>
  A high surrogate followed by a low one is a pair, and a pair is one character of four
  bytes. So in the bytes of a string of JavaScript the three bytes of a high surrogate are
  never followed by the three bytes of a low surrogate: \<open>well_paired\<close>.
\<close>

definition starts_low_surrogate :: "string \<Rightarrow> bool" where
  "starts_low_surrogate s =
     (case s of
        a # b # c # r \<Rightarrow>
          (case surrogate_unit a b c of Some u \<Rightarrow> is_low_surrogate u | None \<Rightarrow> False)
      | _ \<Rightarrow> False)"

fun well_paired :: "string \<Rightarrow> bool" where
  "well_paired (a # b # c # s) =
     ((case surrogate_unit a b c of
         Some u \<Rightarrow> \<not> (is_high_surrogate u \<and> starts_low_surrogate s)
       | None \<Rightarrow> True)
      \<and> well_paired (b # c # s))"
| "well_paired s = True"

text \<open>Whether a JSON text starts with the escape of a low surrogate.\<close>

definition starts_low_escape :: "string \<Rightarrow> bool" where
  "starts_low_escape s =
     (case s of
        b1 # u1 # a # b # c # d # r \<Rightarrow>
          b1 = BSL \<and> u1 = CHR ''u''
          \<and> (case hex4 a b c d of Some l \<Rightarrow> is_low_surrogate l | None \<Rightarrow> False)
      | _ \<Rightarrow> False)"

lemma well_paired_tl: "well_paired (x # s) \<Longrightarrow> well_paired s"
  by (cases "x # s" rule: well_paired.cases) auto

lemma surrogate_unit_range:
  "surrogate_unit a b c = Some u \<Longrightarrow> 0xD800 \<le> u \<and> u \<le> 0xDFFF"
  by (auto simp: surrogate_unit_def split: if_splits)

lemma div_mod_832:
  assumes "k < 64"
  shows "(832 + k) mod 64 = (k :: nat)" "(832 + k) div 64 = (13 :: nat)"
proof -
  have e: "832 + k = 13 * 64 + k" by simp
  have "(13 * 64 + k) mod 64 = k mod 64" by (simp only: mod_mult_self3)
  then show "(832 + k) mod 64 = k" unfolding e using assms by simp
  have "(13 * 64 + k) div 64 = 13 + k div 64" by (simp only: div_mult_self3)
  then show "(832 + k) div 64 = 13" unfolding e using assms by simp
qed

lemma div_mod_64:
  "j < 64 \<Longrightarrow> (a * 64 + j) div 64 = (a :: nat)" "j < 64 \<Longrightarrow> (a * 64 + j) mod 64 = (j :: nat)"
  by simp_all

lemma surrogate_unit_encode:
  assumes "surrogate_unit a b c = Some u"
  shows "utf8_encode u = [a, b, c]"
proof -
  define nb where "nb = (of_char b :: nat)"
  define nc where "nc = (of_char c :: nat)"
  have f: "a = CHR 0xED" "0xA0 \<le> nb" "nb \<le> 0xBF" "0x80 \<le> nc" "nc \<le> 0xBF"
    "u = 0xD000 + (nb - 0x80) * 64 + (nc - 0x80)"
    using assms by (auto simp: surrogate_unit_def nb_def nc_def split: if_splits)
  define k where "k = nb - 0x80"
  define j where "j = nc - 0x80"
  have k: "k < 64" "nb = 0x80 + k" using f(2,3) by (simp_all add: k_def)
  have j: "j < 64" "nc = 0x80 + j" using f(4,5) by (simp_all add: j_def)
  have u: "u = (832 + k) * 64 + j" unfolding f(6) k_def[symmetric] j_def[symmetric] by simp
  have d: "u div 64 = 832 + k" unfolding u by (rule div_mod_64(1)[OF j(1)])
  have 2: "0x80 + (u div 64) mod 64 = (of_char b :: nat)"
    unfolding d nb_def[symmetric] k(2) div_mod_832(1)[OF k(1)] by simp
  have "u mod 64 = j" unfolding u by (rule div_mod_64(2)[OF j(1)])
  then have 3: "0x80 + u mod 64 = (of_char c :: nat)" unfolding nc_def[symmetric] j(2) by simp
  have "u div 4096 = u div 64 div 64" using div_mult2_eq[of u 64 64] by simp
  then have "u div 4096 = 13" unfolding d div_mod_832(2)[OF k(1)] .
  then have 1: "0xE0 + u div 4096 = (of_char a :: nat)" using f(1) by simp
  have r: "\<not> u < 0x80" "\<not> u < 0x800" "u < 0x10000"
    using surrogate_unit_range[OF assms] by simp_all
  show ?thesis unfolding utf8_encode_def using r by (simp only: if_False if_True 1 2 3 char_of_char)
qed

lemma starts_low_escape_form:
  "starts_low_escape s \<Longrightarrow>
     \<exists>a b c d r l. s = BSL # CHR ''u'' # a # b # c # d # r \<and> hex4 a b c d = Some l
        \<and> is_low_surrogate l"
  by (auto simp: starts_low_escape_def split: list.splits option.splits)

lemma parse_string_unicode_escape:
  assumes h: "hex4 a b c d = Some u"
    and n: "is_high_surrogate u \<Longrightarrow> \<not> starts_low_escape s2"
  shows "parse_string (BSL # CHR ''u'' # a # b # c # d # s2)
           = cons_text (utf8_encode u) (parse_string s2)"
proof (cases "\<exists>b1 u1 a2 b2 c2 d2 s3. s2 = b1 # u1 # a2 # b2 # c2 # d2 # s3")
  case True
  then obtain b1 u1 a2 b2 c2 d2 s3 where s: "s2 = b1 # u1 # a2 # b2 # c2 # d2 # s3" by blast
  show ?thesis
  proof (cases "hex4 a2 b2 c2 d2")
    case None
    then show ?thesis unfolding s using h
      by (subst parse_string.simps(2)) (simp del: parse_string.simps(2))
  next
    case (Some l)
    have "\<not> (b1 = BSL \<and> u1 = CHR ''u'' \<and> is_high_surrogate u \<and> is_low_surrogate l)"
      using n Some unfolding s by (auto simp: starts_low_escape_def)
    then have c: "(b1 = BSL \<and> u1 = CHR ''u'' \<and> is_high_surrogate u \<and> is_low_surrogate l)
        = False" by simp
    show ?thesis unfolding s
      by (subst parse_string.simps(2)) (simp add: h Some c del: parse_string.simps(2))
  qed
next
  case False
  then show ?thesis using h
    by (subst parse_string.simps(2)) (simp split: list.split del: parse_string.simps(2))
qed

lemma escape_char_not_low: "\<not> starts_low_escape (escape_char x @ s)"
proof
  assume "starts_low_escape (escape_char x @ s)"
  then obtain a b c d r l where e: "escape_char x @ s = BSL # CHR ''u'' # a # b # c # d # r"
    "hex4 a b c d = Some l" "is_low_surrogate l"
    using starts_low_escape_form by blast
  from e(1) have "a = CHR ''0'' \<and> b = CHR ''0''"
    by (auto simp: escape_char_def split: if_splits)
  with e(2) have "l < 256" using hex4_bound by blast
  with e(3) show False by (simp add: is_low_surrogate_def)
qed

lemma unicode_escape_low:
  assumes "surrogate_unit a b c = Some u" and "starts_low_escape (unicode_escape u @ s)"
  shows "is_low_surrogate u"
proof -
  have "u < 65536" using surrogate_unit_range[OF assms(1)] by simp
  then have "hex4 (hex_digit (u div 4096)) (hex_digit (u div 256)) (hex_digit (u div 16))
      (hex_digit u) = Some u" by (rule hex4_unicode_escape)
  then show ?thesis using assms(2) by (simp add: starts_low_escape_def unicode_escape_def)
qed

lemma quote_body_not_low:
  assumes "starts_low_escape (quote_body s @ DQ # r)"
  shows "starts_low_surrogate s"
proof (cases s rule: quote_body.cases)
  case (1 a b c t)
  show ?thesis
  proof (cases "surrogate_unit a b c")
    case None
    then have "quote_body s @ DQ # r = escape_char a @ quote_body (b # c # t) @ DQ # r"
      using 1 by simp
    then show ?thesis using assms escape_char_not_low by simp
  next
    case (Some u)
    then have "quote_body s @ DQ # r = unicode_escape u @ quote_body t @ DQ # r"
      using 1 by simp
    then have "is_low_surrogate u" using assms unicode_escape_low[OF Some] by simp
    then show ?thesis using 1 Some by (simp add: starts_low_surrogate_def)
  qed
next
  case (2 a v)
  then have "quote_body s @ DQ # r = escape_char a @ escape_char v @ DQ # r" by simp
  then show ?thesis using assms escape_char_not_low by simp
next
  case (3 a)
  then have "quote_body s @ DQ # r = escape_char a @ DQ # r" by simp
  then show ?thesis using assms escape_char_not_low by simp
next
  case 4
  then have "starts_low_escape (DQ # r)" using assms by simp
  then show ?thesis using starts_low_escape_form[of "DQ # r"] by simp
qed

lemma parse_string_simple:
  "e \<noteq> CHR ''u'' \<Longrightarrow>
     parse_string (BSL # e # s) =
       (case simple_escape e of None \<Rightarrow> None | Some x \<Rightarrow> cons_text [x] (parse_string s))"
  by (subst parse_string.simps(2)) (simp del: parse_string.simps(2))

lemma parse_string_plain:
  "c \<noteq> DQ \<Longrightarrow> c \<noteq> BSL \<Longrightarrow> \<not> (of_char c :: nat) < 0x20 \<Longrightarrow>
     parse_string (c # s) = cons_text [c] (parse_string s)"
  by (subst parse_string.simps(2)) (simp del: parse_string.simps(2))

lemma parse_string_escape_char:
  "parse_string (escape_char c @ s) = cons_text [c] (parse_string s)"
proof (cases "c \<in> {CHR 0x08, CHR 0x09, LF, CHR 0x0C, CR, DQ, BSL}")
  case True
  then show ?thesis
    by (elim insertE emptyE)
      (simp_all add: escape_char_def parse_string_simple simple_escape_def
        del: parse_string.simps(2))
next
  case False
  then have ne: "c \<noteq> CHR 0x08" "c \<noteq> CHR 0x09" "c \<noteq> LF" "c \<noteq> CHR 0x0C" "c \<noteq> CR" "c \<noteq> DQ"
    "c \<noteq> BSL" by simp_all
  show ?thesis
  proof (cases "(of_char c :: nat) < 0x20")
    case True
    define n where "n = (of_char c :: nat)"
    have n: "n < 32" using True by (simp add: n_def)
    have e: "escape_char c
        = [BSL, CHR ''u'', CHR ''0'', CHR ''0'', hex_digit (n div 16), hex_digit (n mod 16)]"
      using True ne by (simp add: escape_char_def n_def)
    have z: "hex_val (CHR ''0'') = Some 0" by (simp add: hex_val_def)
    have m: "n div 16 mod 16 = n div 16" using n by simp
    have h: "hex4 (CHR ''0'') (CHR ''0'') (hex_digit (n div 16)) (hex_digit (n mod 16)) = Some n"
      unfolding hex4_def z hex_val_hex_digit by (simp add: m)
    have hs: "is_high_surrogate n \<Longrightarrow> \<not> starts_low_escape s"
      using n by (simp add: is_high_surrogate_def)
    have u: "utf8_encode n = [c]" using n by (simp add: utf8_encode_def n_def)
    have "parse_string (BSL # CHR ''u'' # CHR ''0'' # CHR ''0'' # hex_digit (n div 16)
        # hex_digit (n mod 16) # s) = cons_text (utf8_encode n) (parse_string s)"
      using h hs by (rule parse_string_unicode_escape)
    then show ?thesis unfolding e u by simp
  next
    case False
    then have "escape_char c = [c]" using ne by (simp add: escape_char_def)
    then show ?thesis using parse_string_plain[OF ne(6,7) False] by simp
  qed
qed

lemma parse_string_quote:
  "well_paired t \<Longrightarrow> parse_string (quote_body t @ DQ # r) = Some (t, r)"
proof (induction t rule: quote_body.induct)
  case (1 a b c s)
  show ?case
  proof (cases "surrogate_unit a b c")
    case None
    have "well_paired (b # c # s)" using "1.prems" by simp
    then have "parse_string (quote_body (b # c # s) @ DQ # r) = Some (b # c # s, r)"
      using "1.IH"(1)[OF None] by simp
    then show ?thesis
      using None parse_string_escape_char[of a "quote_body (b # c # s) @ DQ # r"]
      by (simp add: cons_text_def)
  next
    case (Some u)
    let ?rest = "quote_body s @ DQ # r"
    have "well_paired s" using "1.prems" well_paired_tl by blast
    then have ih: "parse_string ?rest = Some (s, r)" using "1.IH"(2)[OF Some] by simp
    have "u < 65536" using surrogate_unit_range[OF Some] by simp
    then have h: "hex4 (hex_digit (u div 4096)) (hex_digit (u div 256)) (hex_digit (u div 16))
        (hex_digit u) = Some u" by (rule hex4_unicode_escape)
    have n: "is_high_surrogate u \<Longrightarrow> \<not> starts_low_escape ?rest"
    proof -
      assume "is_high_surrogate u"
      then have "\<not> starts_low_surrogate s" using "1.prems" Some by simp
      then show "\<not> starts_low_escape ?rest" using quote_body_not_low by blast
    qed
    have "parse_string (BSL # CHR ''u'' # hex_digit (u div 4096) # hex_digit (u div 256)
        # hex_digit (u div 16) # hex_digit u # ?rest)
        = cons_text (utf8_encode u) (parse_string ?rest)"
      using h n by (rule parse_string_unicode_escape)
    then have "parse_string (unicode_escape u @ ?rest) = Some (a # b # c # s, r)"
      unfolding ih surrogate_unit_encode[OF Some] by (simp add: unicode_escape_def cons_text_def)
    then show ?thesis using Some by simp
  qed
next
  case (2 a v)
  then have "parse_string (quote_body [v] @ DQ # r) = Some ([v], r)" by simp
  then show ?case
    using parse_string_escape_char[of a "quote_body [v] @ DQ # r"] by (simp add: cons_text_def)
next
  case (3 a)
  show ?case using parse_string_escape_char[of a "DQ # r"] by (simp add: cons_text_def)
next
  case 4
  show ?case by simp
qed

lemma parse_string_response: "parse_string (''response'' @ DQ # r) = Some (''response'', r)"
  by (simp add: cons_text_def)

lemma JSON_parse_stringify:
  assumes "well_paired reply"
  shows "JSON_parse (stringify_response reply) = Some (JObj [(''response'', JStr reply)])"
proof -
  let ?q = "quote_body reply"
  have s: "stringify_response reply
      = CHR ''{'' # DQ # ''response'' @ DQ # CHR '':'' # DQ # ?q @ DQ # ''}''"
    by (simp add: stringify_response_def QuoteJSONString_def)
  have q: "parse_string (?q @ DQ # ''}'') = Some (reply, ''}'')"
    using assms by (rule parse_string_quote)
  have v: "parse_value (Suc k) (DQ # ?q @ DQ # ''}'') = Some (JStr reply, ''}'')" for k
    by (simp add: q skip_ws_def json_ws_def)
  have m: "parse_members (Suc (Suc k)) (DQ # ''response'' @ DQ # CHR '':'' # DQ # ?q @ DQ # ''}'')
      = Some ([(''response'', JStr reply)], [])" for k
    using parse_string_response[of "CHR '':'' # DQ # ?q @ DQ # ''}''"] v[of k]
    by (simp add: skip_ws_def json_ws_def del: parse_value.simps parse_string.simps)
  have p: "parse_value (Suc (Suc (Suc k))) (stringify_response reply)
      = Some (JObj [(''response'', JStr reply)], [])" for k
    unfolding s using m[of k]
    by (simp add: skip_ws_def json_ws_def del: parse_members.simps parse_string.simps)
  have "2 * length (stringify_response reply) + 2
      = Suc (Suc (Suc (2 * length (stringify_response reply) - 1)))"
    unfolding s by simp
  then have "parse_value (2 * length (stringify_response reply) + 2) (stringify_response reply)
      = Some (JObj [(''response'', JStr reply)], [])"
    using p[of "2 * length (stringify_response reply) - 1"] by (simp only:)
  then show ?thesis by (simp add: JSON_parse_def skip_ws_def)
qed

lemma append_payload_stringify:
  assumes "well_paired reply"
  shows "append_payload nt rt (stringify_response reply) = rt @ reply"
proof -
  have j: "JSON_parse (stringify_response reply) = Some (JObj [(''response'', JStr reply)])"
    using assms by (rule JSON_parse_stringify)
  show ?thesis
    unfolding append_payload_def j
    by (simp add: get_prop_def opt_chain_def js_truthy_def Let_def)
qed
subsection \<open>The stream of sseTextResponse, cut anywhere\<close>

text \<open>
  The events that the client finds in the beginning \<open>T\<close> of the two records that
  \<open>sseTextResponse\<close> writes: none before the first blank line, the JSON text from there on,
  and the sentinel only when the whole stream is there.
\<close>

lemma two_records_events:
  assumes p: "LF \<notin> set p1" "LF \<notin> set p2"
    and T: "prefix T (''data:'' @ p1 @ LF # LF # ''data:'' @ p2 @ [LF, LF])"
  shows "events (sse_loop T []) =
     (if T = ''data:'' @ p1 @ LF # LF # ''data:'' @ p2 @ [LF, LF]
      then [trimStart p1, trimStart p2]
      else if prefix (''data:'' @ p1 @ [LF, LF]) T then [trimStart p1] else [])"
proof -
  let ?x1 = "''data:'' @ p1" and ?x2 = "''data:'' @ p2"
  have x: "LF \<notin> set ?x1" "LF \<notin> set ?x2" using p by simp_all
  have T': "prefix T ((?x1 @ [LF]) @ LF # ?x2 @ [LF, LF])" using T by simp
  show ?thesis
  proof (cases "prefix T (?x1 @ [LF])")
    case True
    then have "length T \<le> length (?x1 @ [LF])" by (rule prefix_length_le)
    then have "T \<noteq> ''data:'' @ p1 @ LF # LF # ''data:'' @ p2 @ [LF, LF]"
      "\<not> prefix (''data:'' @ p1 @ [LF, LF]) T"
      by (auto dest: prefix_length_le)
    then show ?thesis using sse_loop_partial[OF x(1) True] by simp
  next
    case False
    with T' obtain us where us: "T = (?x1 @ [LF]) @ us" "prefix us (LF # ?x2 @ [LF, LF])"
      unfolding prefix_append by blast
    have "us \<noteq> []" using False us(1) by auto
    with us(2) obtain R where R: "us = LF # R" "prefix R (?x2 @ [LF, LF])"
      by (cases us) auto
    have Teq: "T = ''data:'' @ p1 @ LF # LF # R" using us(1) R(1) by simp
    have first: "prefix (''data:'' @ p1 @ [LF, LF]) T" unfolding Teq by simp
    have step: "sse_loop T [] = sse_loop R [trimStart p1]"
      unfolding Teq using sse_loop_record[OF p(1), of R "[]"] by simp
    have R': "prefix R ((?x2 @ [LF]) @ [LF])" using R(2) by simp
    show ?thesis
    proof (cases "prefix R (?x2 @ [LF])")
      case True
      then have "length R \<le> length (?x2 @ [LF])" by (rule prefix_length_le)
      then have "R \<noteq> ''data:'' @ p2 @ [LF, LF]" by auto
      then have "T \<noteq> ''data:'' @ p1 @ LF # LF # ''data:'' @ p2 @ [LF, LF]"
        unfolding Teq by simp
      then show ?thesis
        using sse_loop_partial[OF x(2) True, of "[trimStart p1]"] first step by simp
    next
      case False
      with R' obtain ws where ws: "R = (?x2 @ [LF]) @ ws" "prefix ws [LF]"
        unfolding prefix_append[of R "?x2 @ [LF]"] by blast
      have "ws \<noteq> []" using False ws(1) by auto
      with ws(2) have "ws = [LF]" by (cases ws) auto
      with ws(1) have "R = (?x2 @ [LF]) @ [LF]" by simp
      then have Req: "R = ''data:'' @ p2 @ LF # LF # []" by simp
      have "sse_loop R [trimStart p1] = sse_loop [] [trimStart p1, trimStart p2]"
        unfolding Req using sse_loop_record[OF p(2), of "[]" "[trimStart p1]"] by simp
      then have "events (sse_loop T []) = [trimStart p1, trimStart p2]"
        using step by (simp add: sse_loop.simps[of "[]"])
      moreover have "T = ''data:'' @ p1 @ LF # LF # ''data:'' @ p2 @ [LF, LF]"
        unfolding Teq Req by simp
      ultimately show ?thesis by simp
    qed
  qed
qed

lemma server_stream_events:
  assumes "prefix T (concat (sseTextResponse reply))"
  shows "events (consumeSseEvents T) =
     (if T = concat (sseTextResponse reply) then [stringify_response reply, ''[DONE]'']
      else if prefix (''data: '' @ stringify_response reply @ [LF, LF]) T
      then [stringify_response reply] else [])"
proof -
  let ?p1 = "CHR '' '' # stringify_response reply" and ?p2 = "'' [DONE]''"
  have S: "concat (sseTextResponse reply) = ''data:'' @ ?p1 @ LF # LF # ''data:'' @ ?p2 @ [LF, LF]"
    by (simp add: sseTextResponse_def)
  have p: "LF \<notin> set ?p1" "LF \<notin> set ?p2" using stringify_no_newline(1)[of reply] by simp_all
  have "CR \<notin> set (concat (sseTextResponse reply))"
    unfolding S using stringify_no_newline(2)[of reply] by simp
  then have "CR \<notin> set T" using assms set_mono_prefix by blast
  then have c: "consumeSseEvents T = sse_loop T []"
    by (simp add: consumeSseEvents_def replace_cr_id)
  have d: "trimStart ?p2 = ''[DONE]''"
    by (simp add: trimStart.simps ws1_def ws2_def ws3_def)
  have e: "''data: '' @ stringify_response reply @ [LF, LF] = ''data:'' @ ?p1 @ [LF, LF]" by simp
  show ?thesis
    unfolding c e S using two_records_events[OF p, of T] assms
    by (simp only: S trimStart_payload d)
qed

subsection \<open>The decoder\<close>

lemma utf8_incomplete_le: "utf8_incomplete b \<le> length b"
proof (cases b rule: rev_cases)
  case Nil
  then show ?thesis by (simp add: utf8_incomplete_def)
next
  case (snoc ys y)
  then show ?thesis
    by (auto simp: utf8_incomplete_def split: list.split)
qed

lemma utf8_incomplete_last: "utf8_incomplete b \<noteq> 0 \<Longrightarrow> last b \<noteq> LF"
proof (cases b rule: rev_cases)
  case Nil
  assume "utf8_incomplete b \<noteq> 0"
  with Nil show ?thesis by (simp add: utf8_incomplete_def)
next
  case (snoc ys y)
  assume "utf8_incomplete b \<noteq> 0"
  with snoc have "2 \<le> utf8_need y \<or> utf8_cont y"
    by (auto simp: utf8_incomplete_def split: if_splits)
  then have "y \<noteq> LF" by (auto simp: utf8_need_def utf8_cont_def)
  with snoc show ?thesis by simp
qed

text \<open>
  What one call gives out and what it holds back are together what it was given; what is
  held back does not end a line.
\<close>

lemma decode_chunk_parts:
  assumes "decode_chunk pending seen v = (txt, held, seen')"
  shows "\<exists>out. out @ held = pending @ v
           \<and> txt = (if seen \<or> out = [] then out else strip_bom out)
           \<and> seen' = (seen \<or> out \<noteq> [])
           \<and> (held \<noteq> [] \<longrightarrow> last held \<noteq> LF)"
proof -
  let ?b = "pending @ v"
  let ?k = "utf8_incomplete ?b"
  let ?out = "take (length ?b - ?k) ?b"
  have h: "held = drop (length ?b - ?k) ?b"
    using assms by (auto simp: decode_chunk_def Let_def split: if_splits)
  have "held \<noteq> [] \<longrightarrow> last held \<noteq> LF"
  proof
    assume ne: "held \<noteq> []"
    then have "?k \<noteq> 0" using h by auto
    then have "last ?b \<noteq> LF" by (rule utf8_incomplete_last)
    moreover have "\<not> length ?b \<le> length ?b - ?k" using ne unfolding h drop_eq_Nil .
    then have "length ?b - ?k < length ?b" by (simp only: not_le)
    then have "last held = last ?b" unfolding h by (rule last_drop)
    ultimately show "last held \<noteq> LF" by simp
  qed
  moreover have "?out @ held = ?b" unfolding h by (rule append_take_drop_id)
  moreover have "txt = (if seen \<or> ?out = [] then ?out else strip_bom ?out)"
    "seen' = (seen \<or> ?out \<noteq> [])"
    using assms by (auto simp: decode_chunk_def Let_def split: if_splits)
  ultimately show ?thesis by blast
qed

lemma stringify_not_done: "stringify_response reply \<noteq> ''[DONE]''"
  by (simp add: stringify_response_def)

lemma server_stream_first: "\<exists>r. concat (sseTextResponse reply) = CHR ''d'' # r"
  by (simp add: sseTextResponse_def)

lemma server_stream_last: "last (concat (sseTextResponse reply)) = LF"
  by (simp add: sseTextResponse_def)

text \<open>
  The read loop at any moment before the sentinel: \<open>T\<close> is what has been decoded so far, and
  \<open>T\<close>, the bytes held back and the chunks to come make up the server's stream.
\<close>

lemma read_loop_server_stream:
  assumes "well_paired reply"
    and "T @ pending @ concat reads = concat (sseTextResponse reply)"
    and "T \<noteq> concat (sseTextResponse reply)"
    and "pending \<noteq> [] \<longrightarrow> last pending \<noteq> LF"
    and "\<not> seen \<longrightarrow> T = []"
    and "buf = buffer (consumeSseEvents T)"
    and "rt = fst (handle_events nt (events (consumeSseEvents T)) [])"
  shows "final_text (read_loop nt rt buf pending seen reads) = reply"
  using assms(2-)
proof (induction reads arbitrary: T pending seen buf rt)
  case Nil
  let ?S = "concat (sseTextResponse reply)"
  have S: "T @ pending = ?S" using Nil.prems(1) by simp
  then have ne: "pending \<noteq> []" using Nil.prems(2) by auto
  then have "last pending \<noteq> LF" using Nil.prems(3) by simp
  moreover have "last (T @ pending) = last pending" using ne by simp
  ultimately have False using server_stream_last[of reply] S by simp
  then show ?case ..
next
  case (Cons v reads)
  let ?S = "concat (sseTextResponse reply)"
  let ?J = "stringify_response reply"
  obtain piece held seen' where d: "decode_chunk pending seen v = (piece, held, seen')"
    by (cases "decode_chunk pending seen v") auto
  from decode_chunk_parts[OF d] obtain out where out: "out @ held = pending @ v"
    "piece = (if seen \<or> out = [] then out else strip_bom out)"
    "seen' = (seen \<or> out \<noteq> [])" "held \<noteq> [] \<longrightarrow> last held \<noteq> LF"
    by blast
  let ?T' = "T @ out"
  have "T @ (pending @ v) @ concat reads = ?S" using Cons.prems(1) by simp
  then have whole: "?T' @ held @ concat reads = ?S" unfolding out(1)[symmetric] by simp
  then have pre': "prefix ?T' ?S" unfolding prefix_def by metis
  then have pre: "prefix T ?S" by (rule append_prefixD)
  have piece: "piece = out"
  proof (cases "seen \<or> out = []")
    case True
    then show ?thesis using out(2) by simp
  next
    case False
    then have "T = []" using Cons.prems(4) by simp
    with pre' have "prefix out ?S" by simp
    moreover obtain r where "?S = CHR ''d'' # r" using server_stream_first by blast
    ultimately have "\<exists>r'. out = CHR ''d'' # r'" using False by (cases out) auto
    then have "strip_bom out = out" by (auto simp: strip_bom_def)
    then show ?thesis using out(2) False by simp
  qed
  have evT: "events (consumeSseEvents T) = [] \<or> events (consumeSseEvents T) = [?J]"
    using server_stream_events[OF pre] Cons.prems(2) by (simp split: if_splits)
  have nd: "\<not> snd (handle_events nt (events (consumeSseEvents T)) [])"
    using evT stringify_not_done[of reply] by auto
  have ev: "events (consumeSseEvents ?T')
      = events (consumeSseEvents T) @ events (consumeSseEvents (buf @ out))"
    and bf: "buffer (consumeSseEvents ?T') = buffer (consumeSseEvents (buf @ out))"
    unfolding Cons.prems(5) by (rule consume_append)+
  have h: "handle_events nt (events (consumeSseEvents (buf @ out))) rt
      = handle_events nt (events (consumeSseEvents ?T')) []"
    unfolding ev handle_events_append Cons.prems(6) using nd by simp
  show ?case
  proof (cases "?T' = ?S")
    case True
    then have "events (consumeSseEvents ?T') = [?J, ''[DONE]'']"
      using server_stream_events[OF pre'] by simp
    then have "handle_events nt (events (consumeSseEvents (buf @ out))) rt = (reply, True)"
      unfolding h
      using stringify_not_done[of reply] append_payload_stringify[OF assms(1), of nt "[]"]
      by simp
    then show ?thesis using d piece by simp
  next
    case False
    have ev': "events (consumeSseEvents ?T') = [] \<or> events (consumeSseEvents ?T') = [?J]"
      using server_stream_events[OF pre'] False by (simp split: if_splits)
    have nd': "\<not> snd (handle_events nt (events (consumeSseEvents ?T')) [])"
      using ev' stringify_not_done[of reply] by auto
    then obtain rt' where hv: "handle_events nt (events (consumeSseEvents ?T')) [] = (rt', False)"
      by (cases "handle_events nt (events (consumeSseEvents ?T')) []") auto
    have "read_loop nt rt buf pending seen (v # reads)
        = read_loop nt (fst (handle_events nt (events (consumeSseEvents ?T')) []))
            (buffer (consumeSseEvents ?T')) held seen' reads"
      by (simp add: d piece h bf hv)
    moreover have "final_text (read_loop nt (fst (handle_events nt (events (consumeSseEvents ?T')) []))
            (buffer (consumeSseEvents ?T')) held seen' reads) = reply"
    proof (rule Cons.IH[of ?T' held seen'])
      show "?T' @ held @ concat reads = ?S" by (rule whole)
      show "?T' \<noteq> ?S" by (rule False)
      show "held \<noteq> [] \<longrightarrow> last held \<noteq> LF" by (rule out(4))
      show "\<not> seen' \<longrightarrow> ?T' = []" using out(3) Cons.prems(4) by simp
    qed (rule refl)+
    ultimately show ?thesis by simp
  qed
qed

text \<open>
  C1. A string is given by its UTF-8 bytes, a lone surrogate by its three bytes, and
  \<open>well_paired\<close> says that no pair of surrogates is written as two lone ones. For every such
  \<open>reply\<close>, \<open>sseTextResponse reply\<close> is the list of the two byte blocks that the server
  enqueues. However the bytes of the two blocks are cut into the chunks that the reader
  hands to the client (empty chunks and cuts inside a character included), the read loop
  of \<open>sendMessage\<close>, started as the source starts it, ends with exactly \<open>reply\<close> as the
  accumulated response. The result is thus the same for every partition of the stream.
\<close>

theorem sse_round_trip_is_split_invariant:
  assumes "well_paired reply" and "concat reads = concat (sseTextResponse reply)"
  shows "final_text (read_stream num_text reads) = reply"
  unfolding read_stream_def
proof (rule read_loop_server_stream[where T = "[]", OF assms(1)])
  show "[] @ [] @ concat reads = concat (sseTextResponse reply)" using assms(2) by simp
  show "[] \<noteq> concat (sseTextResponse reply)" by (simp add: sseTextResponse_def)
  show "[] = buffer (consumeSseEvents [])"
    by (simp add: consumeSseEvents_def sse_loop.simps[of "[]"])
  show "[] = fst (handle_events num_text (events (consumeSseEvents [])) [])"
    by (simp add: consumeSseEvents_def sse_loop.simps[of "[]"])
qed simp_all

theorem sse_round_trip_is_split_invariant_witness:
  "final_text (read_stream (\<lambda>l. l)
      [''data: {'' @ [DQ] @ ''response'' @ [DQ] @ '':'' @ [DQ, CHR 0xC3],
       [CHR 0xA9, BSL] @ ''n'' @ [BSL] @ ''ud800'' @ [DQ] @ ''}'' @ [LF],
       [],
       [LF] @ ''data: [DONE]'' @ [LF, LF]])
     = [CHR 0xC3, CHR 0xA9, LF, CHR 0xED, CHR 0xA0, CHR 0x80]
   \<and> final_text (read_stream (\<lambda>l. l)
      [''data: {'' @ [DQ] @ ''response'' @ [DQ] @ '':'' @ [DQ, CHR 0xC3, CHR 0xA9, BSL]
         @ ''n'' @ [BSL] @ ''ud800'' @ [DQ] @ ''}'' @ [LF, LF] @ ''data: [DONE]'' @ [LF, LF]])
     = [CHR 0xC3, CHR 0xA9, LF, CHR 0xED, CHR 0xA0, CHR 0x80]"
proof -
  let ?r = "[CHR 0xC3, CHR 0xA9, LF, CHR 0xED, CHR 0xA0, CHR 0x80]"
  have w: "well_paired ?r"
    by (simp add: surrogate_unit_def starts_low_surrogate_def is_high_surrogate_def)
  have s: "concat (sseTextResponse ?r)
      = ''data: {'' @ [DQ] @ ''response'' @ [DQ] @ '':'' @ [DQ, CHR 0xC3, CHR 0xA9, BSL]
         @ ''n'' @ [BSL] @ ''ud800'' @ [DQ] @ ''}'' @ [LF, LF] @ ''data: [DONE]'' @ [LF, LF]"
    by (simp add: sseTextResponse_def stringify_response_def QuoteJSONString_def escape_char_def
        surrogate_unit_def unicode_escape_def hex_digit_def)
  have a: "concat [''data: {'' @ [DQ] @ ''response'' @ [DQ] @ '':'' @ [DQ, CHR 0xC3],
       [CHR 0xA9, BSL] @ ''n'' @ [BSL] @ ''ud800'' @ [DQ] @ ''}'' @ [LF], [],
       [LF] @ ''data: [DONE]'' @ [LF, LF]]
      = concat (sseTextResponse ?r)"
    unfolding s by simp
  have b: "concat [''data: {'' @ [DQ] @ ''response'' @ [DQ] @ '':'' @ [DQ, CHR 0xC3, CHR 0xA9, BSL]
         @ ''n'' @ [BSL] @ ''ud800'' @ [DQ] @ ''}'' @ [LF, LF] @ ''data: [DONE]'' @ [LF, LF]]
      = concat (sseTextResponse ?r)"
    unfolding s by simp
  show ?thesis
    by (rule conjI[OF sse_round_trip_is_split_invariant[OF w a]
          sse_round_trip_is_split_invariant[OF w b]])
qed
end
